theory Spec2Isabelle
  imports Complex_Main "HOL-Library.Multiset"
begin

section \<open>Single-precision values\<close>

text \<open>
  The program computes with C++ \<^verbatim>\<open>float\<close> (IEEE 754 binary32). A finite value is
  modelled by the rational number it denotes; the two infinities and NaN are separate
  constructors. The sign of zero is not represented: no operation of the program
  distinguishes the two zeros.
\<close>

datatype f32 = Fin rat | PInf | NInf | NaN

text \<open>Rounding to the nearest integer, ties to the even one.\<close>

definition round_half_even :: "rat \<Rightarrow> int" where
  "round_half_even q =
     (let n = \<lfloor>q\<rfloor>; d = q - of_int n
      in if d < 1 / 2 then n else if 1 / 2 < d then n + 1 else if even n then n else n + 1)"

text \<open>The number of binary digits of a positive integer (0 for the others).\<close>

function bit_length :: "int \<Rightarrow> nat" where
  "bit_length m = (if m \<le> 0 then 0 else Suc (bit_length (m div 2)))"
  by pat_completeness auto
termination
  by (relation "measure nat") auto

text \<open>
  All binary32 values are multiples of \<open>2\<^sup>-\<^sup>1\<^sup>4\<^sup>9\<close>. A magnitude \<open>x\<close> with
  \<open>x * 2\<^sup>1\<^sup>4\<^sup>9\<close> of at most 24 binary digits lies in the range where the spacing of
  binary32 values is \<open>2\<^sup>-\<^sup>1\<^sup>4\<^sup>9\<close> (the subnormal numbers and the first binade); every
  further digit doubles the spacing. \<open>ulp_shift x\<close> is the binary logarithm of the
  spacing at \<open>x\<close>, counted from \<open>2\<^sup>-\<^sup>1\<^sup>4\<^sup>9\<close>.
\<close>

definition ulp_shift :: "rat \<Rightarrow> nat" where
  "ulp_shift x = bit_length \<lfloor>x * 2 ^ 149\<rfloor> - 24"

definition rnd_mag :: "rat \<Rightarrow> rat" where
  "rnd_mag x =
     (let s = ulp_shift x
      in of_int (round_half_even (x * 2 ^ 149 / 2 ^ s)) * 2 ^ s / 2 ^ 149)"

text \<open>Round to nearest, ties to even, with 24 significant bits and unbounded range.\<close>

definition rnd32 :: "rat \<Rightarrow> rat" where
  "rnd32 x = (if x < 0 then - rnd_mag (- x) else rnd_mag x)"

text \<open>\<^verbatim>\<open>FLT_MAX\<close>: a rounded result beyond it overflows to an infinity.\<close>

definition flt_max :: rat where
  "flt_max = (2 ^ 24 - 1) * 2 ^ 104"

definition to_f32 :: "rat \<Rightarrow> f32" where
  "to_f32 x =
     (let y = rnd32 x
      in if flt_max < y then PInf else if y < - flt_max then NInf else Fin y)"

fun fsgn :: "f32 \<Rightarrow> int" where
  "fsgn (Fin x) = (if x < 0 then - 1 else if x = 0 then 0 else 1)"
| "fsgn PInf = 1"
| "fsgn NInf = - 1"
| "fsgn NaN = 0"

text \<open>Multiplication and addition of \<^verbatim>\<open>float\<close>.\<close>

fun fmul :: "f32 \<Rightarrow> f32 \<Rightarrow> f32" where
  "fmul (Fin x) (Fin y) = to_f32 (x * y)"
| "fmul NaN b = NaN"
| "fmul a NaN = NaN"
| "fmul a b =
     (let s = fsgn a * fsgn b in if s = 0 then NaN else if 0 < s then PInf else NInf)"

fun fadd :: "f32 \<Rightarrow> f32 \<Rightarrow> f32" where
  "fadd (Fin x) (Fin y) = to_f32 (x + y)"
| "fadd NaN b = NaN"
| "fadd a NaN = NaN"
| "fadd PInf NInf = NaN"
| "fadd NInf PInf = NaN"
| "fadd PInf b = PInf"
| "fadd a PInf = PInf"
| "fadd NInf b = NInf"
| "fadd a NInf = NInf"

text \<open>The comparison \<^verbatim>\<open>==\<close> of two \<^verbatim>\<open>float\<close>s: NaN equals nothing.\<close>

definition feq :: "f32 \<Rightarrow> f32 \<Rightarrow> bool" where
  "feq x y = (x \<noteq> NaN \<and> y \<noteq> NaN \<and> x = y)"

text \<open>\<^verbatim>\<open>ceil\<close>: the result is an integer, kept in floating point.\<close>

fun fceil :: "f32 \<Rightarrow> f32" where
  "fceil (Fin x) = Fin (of_int \<lceil>x\<rceil>)"
| "fceil v = v"

text \<open>
  Conversions. An integer becomes the nearest \<^verbatim>\<open>float\<close>. A \<^verbatim>\<open>float\<close> becomes a
  \<^verbatim>\<open>size_t\<close> (64 bits) by dropping its fraction (a value between \<open>-1\<close> and \<open>0\<close> becomes
  \<open>0\<close>); the conversion is undefined, here \<open>None\<close>, when the result does not fit.
\<close>

definition f32_of_size :: "nat \<Rightarrow> f32" where
  "f32_of_size k = to_f32 (of_nat k)"

definition f32_of_int :: "int \<Rightarrow> f32" where
  "f32_of_int k = to_f32 (of_int k)"

fun size_of_f32 :: "f32 \<Rightarrow> nat option" where
  "size_of_f32 (Fin x) = (if - 1 < x \<and> x < 2 ^ 64 then Some (nat \<lfloor>x\<rfloor>) else None)"
| "size_of_f32 v = None"

section \<open>The constants of the program\<close>

definition ratio :: f32 where
  "ratio = Fin (1 / 2)"

definition alpha :: f32 where
  "alpha = Fin (1 / 2)"

definition array_size :: nat where
  "array_size = 16"

section \<open>The source node\<close>

text \<open>
  The body of \<^verbatim>\<open>in_node\<close> captures the flag \<^verbatim>\<open>n\<close> by reference and receives the
  slot for its output by reference. It returns whether it produced a value; the model
  returns that together with the slot and the flag afterwards.
\<close>

definition in_node :: "bool \<Rightarrow> f32 \<Rightarrow> bool \<times> f32 \<times> bool" where
  "in_node n offload_ratio =
     (if n then (False, offload_ratio, n) else (True, ratio, True))"

text \<open>
  Once activated, a \<^verbatim>\<open>source_node\<close> invokes its body again and again, handing every
  value produced to its successors, until the body returns \<^verbatim>\<open>false\<close>.
  \<open>source_node_run\<close> returns the flag at the end and the values emitted, in order.
\<close>

function source_node_run :: "bool \<Rightarrow> f32 \<Rightarrow> f32 list \<Rightarrow> bool \<times> f32 list" where
  "source_node_run n slot out =
     (case in_node n slot of
        (produced, v, n') \<Rightarrow>
          if produced then source_node_run n' v (out @ [v]) else (n', out))"
  by pat_completeness auto
termination
  by (relation "measure (\<lambda>(n, slot, out). if n then 0 else 1)")
    (auto simp: in_node_def split: if_splits)

text \<open>The results of \<open>k\<close> successive invocations of the body.\<close>

fun invocations :: "nat \<Rightarrow> bool \<Rightarrow> f32 \<Rightarrow> bool list" where
  "invocations 0 n slot = []"
| "invocations (Suc k) n slot =
     (case in_node n slot of (produced, v, n') \<Rightarrow> produced # invocations k n' v)"

text \<open>The graph, as wired by the calls of \<^verbatim>\<open>make_edge\<close> in \<^verbatim>\<open>main\<close>.\<close>

datatype node = In_node | A_node | Cpu_node | Join_port0 | Join_port1 | Node_join | Out_node

definition edges :: "(node \<times> node) list" where
  "edges =
     [(In_node, A_node), (In_node, Cpu_node), (A_node, Join_port0),
      (Cpu_node, Join_port1), (Node_join, Out_node)]"

definition successors :: "node \<Rightarrow> node list" where
  "successors v = map snd (filter (\<lambda>e. fst e = v) edges)"

text \<open>What a node receives from the source: every value emitted, if an edge leads to it.\<close>

definition received_from_source :: "f32 \<Rightarrow> node \<Rightarrow> f32 list" where
  "received_from_source slot v =
     (if v \<in> set (successors In_node) then snd (source_node_run False slot []) else [])"

section \<open>The partition of the index range\<close>

text \<open>
  \<^verbatim>\<open>AsyncActivity::run\<close> computes the number of elements handed to the device as
  \<^verbatim>\<open>size_t array_size_sycl = ceil(array_size * offload_ratio)\<close>: the size is converted
  to \<^verbatim>\<open>float\<close>, multiplied in \<^verbatim>\<open>float\<close>, rounded up and converted back. The size of
  the arrays is the parameter \<open>N\<close>; the program fixes it to \<open>array_size\<close>.
\<close>

definition array_size_sycl :: "nat \<Rightarrow> f32 \<Rightarrow> nat option" where
  "array_size_sycl N offload_ratio =
     size_of_f32 (fceil (fmul (f32_of_size N) offload_ratio))"

text \<open>
  \<^verbatim>\<open>cpu_node\<close> computes its bounds on its own:
  \<^verbatim>\<open>i_start = static_cast<size_t>(ceil(array_size * offload_ratio))\<close> and
  \<^verbatim>\<open>i_end = static_cast<size_t>(array_size)\<close>.
\<close>

definition i_start :: "nat \<Rightarrow> f32 \<Rightarrow> nat option" where
  "i_start N offload_ratio =
     size_of_f32 (fceil (fmul (f32_of_size N) offload_ratio))"

definition i_end :: "nat \<Rightarrow> nat" where
  "i_end N = N"

text \<open>
  The two ranges, as half-open intervals \<open>(start, end)\<close>: the device runs its kernel on
  \<^verbatim>\<open>range<1>{array_size_sycl}\<close>, the CPU on
  \<^verbatim>\<open>blocked_range<size_t>{i_start, i_end}\<close>.
\<close>

definition device_range :: "nat \<Rightarrow> f32 \<Rightarrow> (nat \<times> nat) option" where
  "device_range N offload_ratio = map_option (\<lambda>e. (0, e)) (array_size_sycl N offload_ratio)"

definition cpu_range :: "nat \<Rightarrow> f32 \<Rightarrow> (nat \<times> nat) option" where
  "cpu_range N offload_ratio = map_option (\<lambda>s. (s, i_end N)) (i_start N offload_ratio)"

definition range_set :: "nat \<times> nat \<Rightarrow> nat set" where
  "range_set r = {fst r ..< snd r}"

definition range_length :: "nat \<times> nat \<Rightarrow> nat" where
  "range_length r = snd r - fst r"

section \<open>The arrays and the two kernels\<close>

text \<open>The three global arrays \<^verbatim>\<open>std::array<float, array_size>\<close>.\<close>

record arrays =
  a_array :: "f32 list"
  b_array :: "f32 list"
  c_array :: "f32 list"

datatype error = Conversion_undefined | Out_of_bounds

text \<open>
  Objects of static storage duration start zeroed; the first loop of \<^verbatim>\<open>main\<close> then
  stores \<^verbatim>\<open>i\<close>, converted to \<^verbatim>\<open>float\<close>, at index \<^verbatim>\<open>i\<close> of both inputs.
\<close>

definition globals :: "nat \<Rightarrow> arrays" where
  "globals N =
     \<lparr>a_array = replicate N (Fin 0), b_array = replicate N (Fin 0),
      c_array = replicate N (Fin 0)\<rparr>"

definition init_body :: "nat \<Rightarrow> arrays \<Rightarrow> arrays" where
  "init_body i st =
     st\<lparr>a_array := (a_array st)[i := f32_of_int (int i)],
        b_array := (b_array st)[i := f32_of_int (int i)]\<rparr>"

definition init_arrays :: "nat \<Rightarrow> arrays" where
  "init_arrays N = fold init_body [0..<N] (globals N)"

text \<open>
  The device kernel stores \<^verbatim>\<open>a_accessor[index] + b_accessor[index] * coeff\<close>, the loop
  of the CPU node stores \<^verbatim>\<open>a_array[i] + alpha * b_array[i]\<close>. Each operation rounds
  its own result; a compiler that fuses the two into one rounding gives the same values on
  the program's data, where every intermediate result is exact.
\<close>

definition device_value :: "f32 \<Rightarrow> arrays \<Rightarrow> nat \<Rightarrow> f32" where
  "device_value coeff st index = fadd (a_array st ! index) (fmul (b_array st ! index) coeff)"

definition cpu_value :: "arrays \<Rightarrow> nat \<Rightarrow> f32" where
  "cpu_value st i = fadd (a_array st ! i) (fmul alpha (b_array st ! i))"

definition kernel_body :: "f32 \<Rightarrow> nat \<Rightarrow> arrays \<Rightarrow> arrays" where
  "kernel_body coeff index st =
     st\<lparr>c_array := (c_array st)[index := device_value coeff st index]\<rparr>"

definition cpu_body :: "nat \<Rightarrow> arrays \<Rightarrow> arrays" where
  "cpu_body i st = st\<lparr>c_array := (c_array st)[i := cpu_value st i]\<rparr>"

text \<open>The arrays have \<open>N\<close> elements each.\<close>

definition well_formed :: "nat \<Rightarrow> arrays \<Rightarrow> bool" where
  "well_formed N st =
     (length (a_array st) = N \<and> length (b_array st) = N \<and> length (c_array st) = N)"

text \<open>
  One execution of a kernel body at one index, by either engine. The device runs with
  \<^verbatim>\<open>coeff = alpha\<close>. The indices executed in a run are below \<open>N\<close> (see \<open>writes\<close> below),
  so on well-formed arrays every access is in range.
\<close>

datatype engine = Device | Cpu

fun exec_write :: "engine \<times> nat \<Rightarrow> arrays \<Rightarrow> arrays" where
  "exec_write (Device, i) st = kernel_body alpha i st"
| "exec_write (Cpu, i) st = cpu_body i st"

text \<open>
  The indices each engine executes. The device's buffers span the first
  \<open>array_size_sycl\<close> elements of the host arrays: more than \<open>N\<close> of them is an access
  beyond the arrays, and a split point that is no \<^verbatim>\<open>size_t\<close> is undefined. The CPU's
  \<^verbatim>\<open>blocked_range\<close> is empty when it starts at or after its end.

  The device kernel works on buffers that are copied back into the first
  \<open>array_size_sycl\<close> elements of the host arrays when the buffers go out of scope. Only
  the buffer of \<^verbatim>\<open>c_array\<close> is written, so on the host arrays the effect is that of the
  stores done in place.
\<close>

definition device_indices :: "nat \<Rightarrow> f32 \<Rightarrow> error + nat list" where
  "device_indices N offload_ratio =
     (case array_size_sycl N offload_ratio of
        None \<Rightarrow> Inl Conversion_undefined
      | Some n \<Rightarrow> if N < n then Inl Out_of_bounds else Inr [0..<n])"

definition cpu_indices :: "nat \<Rightarrow> f32 \<Rightarrow> error + nat list" where
  "cpu_indices N offload_ratio =
     (case i_start N offload_ratio of
        None \<Rightarrow> Inl Conversion_undefined
      | Some s \<Rightarrow> Inr [s..<i_end N])"

definition writes :: "nat \<Rightarrow> f32 \<Rightarrow> error + (engine \<times> nat) list" where
  "writes N offload_ratio =
     (case device_indices N offload_ratio of
        Inl e \<Rightarrow> Inl e
      | Inr ds \<Rightarrow>
          (case cpu_indices N offload_ratio of
             Inl e \<Rightarrow> Inl e
           | Inr cs \<Rightarrow> Inr (map (Pair Device) ds @ map (Pair Cpu) cs)))"

text \<open>
  The two engines run at the same time, and each of the two \<^verbatim>\<open>parallel_for\<close>s runs its
  indices in no fixed order. A schedule is one order in which the kernel bodies of a run
  take effect: any arrangement of the writes of both engines.
\<close>

definition schedule :: "nat \<Rightarrow> f32 \<Rightarrow> (engine \<times> nat) list \<Rightarrow> bool" where
  "schedule N offload_ratio es =
     (case writes N offload_ratio of Inl e \<Rightarrow> False | Inr ws \<Rightarrow> mset es = mset ws)"

definition run_schedule :: "(engine \<times> nat) list \<Rightarrow> arrays \<Rightarrow> arrays" where
  "run_schedule es st = fold exec_write es st"

text \<open>
  \<^verbatim>\<open>out_node\<close> recomputes the triad serially into \<^verbatim>\<open>c_gold\<close> and compares it with
  \<^verbatim>\<open>c_array\<close> by \<^verbatim>\<open>std::equal\<close>; the model returns the line it prints.
\<close>

definition c_gold :: "nat \<Rightarrow> arrays \<Rightarrow> f32 list" where
  "c_gold N st = map (\<lambda>i. fadd (a_array st ! i) (fmul alpha (b_array st ! i))) [0..<N]"

definition out_node :: "nat \<Rightarrow> arrays \<Rightarrow> string" where
  "out_node N st =
     (if \<not> list_all2 feq (c_array st) (c_gold N st) then ''Heterogenous triad error.''
      else ''Heterogenous triad correct.'')"

section \<open>The flow graph\<close>

text \<open>
  \<^verbatim>\<open>main\<close> builds a flow graph of five nodes and runs it once. The graph is modelled as a
  state machine: a state holds the work that is pending at each node, and an action is
  one step of one thread. The threads of the pool, the thread of the task arena and the
  main thread interleave freely, so every sequence of actions that can be executed is a
  possible run. The arrays are not part of the state: what the two kernels write, in
  whatever order, is the subject of the schedules above; here a kernel is a step of the
  thread that runs it.

  The nodes behave as the library documents them:
  \<^item> an activated \<^verbatim>\<open>source_node\<close> invokes its body until the body returns \<^verbatim>\<open>false\<close>, and
    passes every value produced to its successors;
  \<^item> a \<^verbatim>\<open>function_node\<close> or \<^verbatim>\<open>async_node\<close> of \<^verbatim>\<open>unlimited\<close> concurrency starts one
    task per message, and the tasks run in any order;
  \<^item> \<^verbatim>\<open>gateway.reserve_wait()\<close> increments and \<^verbatim>\<open>gateway.release_wait()\<close> decrements the
    count of outstanding work of the graph, and \<^verbatim>\<open>gateway.try_put\<close> passes a value to the
    successors of the asynchronous node;
  \<^item> a \<^verbatim>\<open>join_node\<close> with the \<^verbatim>\<open>queueing\<close> policy keeps one first-in first-out queue per
    port and, when no queue is empty, takes the head of each and passes the tuple on;
  \<^item> a \<^verbatim>\<open>task_arena\<close> of concurrency 1 runs the functions enqueued to it one at a time,
    in order;
  \<^item> \<^verbatim>\<open>graph::wait_for_all\<close> returns when no node has work left and the count of
    outstanding work is zero.
\<close>

datatype main_pc = Before_activate | Waiting | Returned

text \<open>
  How far the function enqueued by \<^verbatim>\<open>AsyncActivity::run\<close> has come: before the kernel,
  after the kernel has run and \<^verbatim>\<open>wait_and_throw\<close> has returned, after \<^verbatim>\<open>try_put\<close>.
\<close>

datatype phase = Kernel_pending | Kernel_done | Put_done

text \<open>The values both paths pass on: \<^verbatim>\<open>double sycl_result = 1.0\<close>, \<^verbatim>\<open>double tbb_result = 1.0\<close>.\<close>

definition sycl_result :: rat where
  "sycl_result = 1"

definition tbb_result :: rat where
  "tbb_result = 1"

text \<open>
  The state. Every message carries, as its first component, the number of the activation
  (the emission of the source) that caused it, so that the properties of the join can be
  stated; the program's own values are the second components.
  \<^item> \<open>flag_n\<close> is the flag \<^verbatim>\<open>n\<close> of \<^verbatim>\<open>main\<close>, \<open>cached_item\<close> the slot the source's body
    writes to, \<open>emitted\<close> the number of values the source has emitted;
  \<^item> \<open>a_node_tasks\<close>, \<open>cpu_node_tasks\<close> and \<open>out_node_tasks\<close> hold the messages whose task has
    not run yet; \<open>a_node_reserved\<close> holds those for which \<^verbatim>\<open>run\<close> has called
    \<^verbatim>\<open>reserve_wait\<close> and not yet \<^verbatim>\<open>enqueue\<close>;
  \<^item> \<open>arena_queue\<close> holds the enqueued functions, \<open>arena_running\<close> the one being run;
  \<^item> \<open>port0\<close> and \<open>port1\<close> are the queues of the join, \<open>consumed\<close> the tuples \<^verbatim>\<open>out_node\<close>
    has been invoked with;
  \<^item> \<open>reserved\<close> is the count of outstanding work; the four \<open>_calls\<close> fields count the
    calls made so far.
\<close>

record graph =
  flag_n :: bool
  cached_item :: f32
  emitted :: nat
  source_active :: bool
  a_node_tasks :: "(nat \<times> f32) list"
  a_node_reserved :: "(nat \<times> f32) list"
  cpu_node_tasks :: "(nat \<times> f32) list"
  arena_queue :: "(nat \<times> f32) list"
  arena_running :: "((nat \<times> f32) \<times> phase) option"
  port0 :: "(nat \<times> rat) list"
  port1 :: "(nat \<times> rat) list"
  out_node_tasks :: "((nat \<times> rat) \<times> (nat \<times> rat)) list"
  consumed :: "((nat \<times> rat) \<times> (nat \<times> rat)) list"
  reserved :: nat
  reserve_calls :: nat
  enqueue_calls :: nat
  try_put_calls :: nat
  release_calls :: nat
  main_thread :: main_pc

definition initial :: "f32 \<Rightarrow> graph" where
  "initial v0 =
     \<lparr>flag_n = False, cached_item = v0, emitted = 0, source_active = False,
      a_node_tasks = [], a_node_reserved = [], cpu_node_tasks = [],
      arena_queue = [], arena_running = None, port0 = [], port1 = [],
      out_node_tasks = [], consumed = [], reserved = 0,
      reserve_calls = 0, enqueue_calls = 0, try_put_calls = 0, release_calls = 0,
      main_thread = Before_activate\<rparr>"

text \<open>Passing a value along an edge of the graph.\<close>

fun put_ratio :: "node \<Rightarrow> nat \<times> f32 \<Rightarrow> graph \<Rightarrow> graph" where
  "put_ratio A_node m s = s\<lparr>a_node_tasks := a_node_tasks s @ [m]\<rparr>"
| "put_ratio Cpu_node m s = s\<lparr>cpu_node_tasks := cpu_node_tasks s @ [m]\<rparr>"
| "put_ratio v m s = s"

fun put_token :: "node \<Rightarrow> nat \<times> rat \<Rightarrow> graph \<Rightarrow> graph" where
  "put_token Join_port0 t s = s\<lparr>port0 := port0 s @ [t]\<rparr>"
| "put_token Join_port1 t s = s\<lparr>port1 := port1 s @ [t]\<rparr>"
| "put_token v t s = s"

fun put_tuple :: "node \<Rightarrow> (nat \<times> rat) \<times> (nat \<times> rat) \<Rightarrow> graph \<Rightarrow> graph" where
  "put_tuple Out_node p s = s\<lparr>out_node_tasks := out_node_tasks s @ [p]\<rparr>"
| "put_tuple v p s = s"

definition remove_nth :: "nat \<Rightarrow> 'a list \<Rightarrow> 'a list" where
  "remove_nth k xs = take k xs @ drop (Suc k) xs"

text \<open>No node has work left.\<close>

definition idle :: "graph \<Rightarrow> bool" where
  "idle s =
     (\<not> source_active s \<and> a_node_tasks s = [] \<and> a_node_reserved s = []
      \<and> cpu_node_tasks s = [] \<and> out_node_tasks s = []
      \<and> (port0 s = [] \<or> port1 s = []))"

text \<open>
  The actions, with the statement of the program each one stands for:
  \<^item> \<open>Activate\<close>: \<^verbatim>\<open>in_node.activate()\<close>; the main thread goes on to \<^verbatim>\<open>g.wait_for_all()\<close>;
  \<^item> \<open>Source_body\<close>: one invocation of the body of \<^verbatim>\<open>in_node\<close>;
  \<^item> \<open>A_reserve k\<close>: the body of \<^verbatim>\<open>a_node\<close> starts on its \<open>k\<close>-th pending message and
    \<^verbatim>\<open>run\<close> calls \<^verbatim>\<open>gateway.reserve_wait()\<close>;
  \<^item> \<open>A_enqueue k\<close>: \<^verbatim>\<open>run\<close> calls \<^verbatim>\<open>a.enqueue\<close> and returns;
  \<^item> \<open>Arena_start\<close>: the arena's thread takes the next function;
  \<^item> \<open>Arena_kernel\<close>: the function runs the kernel up to the return of
    \<^verbatim>\<open>wait_and_throw\<close>;
  \<^item> \<open>Arena_put\<close>: \<^verbatim>\<open>gateway.try_put(sycl_result)\<close>;
  \<^item> \<open>Arena_release\<close>: \<^verbatim>\<open>gateway.release_wait()\<close>, and the function ends;
  \<^item> \<open>Cpu_body k\<close>: the body of \<^verbatim>\<open>cpu_node\<close> runs on its \<open>k\<close>-th pending message and
    returns \<^verbatim>\<open>tbb_result\<close>;
  \<^item> \<open>Join_forward\<close>: \<^verbatim>\<open>node_join\<close> pairs the heads of its two queues;
  \<^item> \<open>Out_body k\<close>: the body of \<^verbatim>\<open>out_node\<close> runs on its \<open>k\<close>-th pending tuple;
  \<^item> \<open>Wait_return\<close>: \<^verbatim>\<open>g.wait_for_all()\<close> returns.
  An action that cannot be taken in a state yields \<open>None\<close>.
\<close>

datatype action =
  Activate | Source_body | A_reserve nat | A_enqueue nat
  | Arena_start | Arena_kernel | Arena_put | Arena_release
  | Cpu_body nat | Join_forward | Out_body nat | Wait_return

fun exec :: "action \<Rightarrow> graph \<Rightarrow> graph option" where
  "exec Activate s =
     (if main_thread s = Before_activate
      then Some (s\<lparr>source_active := True, main_thread := Waiting\<rparr>) else None)"
| "exec Source_body s =
     (if source_active s
      then (case in_node (flag_n s) (cached_item s) of
              (produced, v, n') \<Rightarrow>
                if produced
                then Some (fold (\<lambda>d. put_ratio d (emitted s, v)) (successors In_node)
                       (s\<lparr>flag_n := n', cached_item := v, emitted := Suc (emitted s)\<rparr>))
                else Some (s\<lparr>flag_n := n', cached_item := v, source_active := False\<rparr>))
      else None)"
| "exec (A_reserve k) s =
     (if k < length (a_node_tasks s)
      then Some (s\<lparr>a_node_tasks := remove_nth k (a_node_tasks s),
                   a_node_reserved := a_node_reserved s @ [a_node_tasks s ! k],
                   reserved := Suc (reserved s),
                   reserve_calls := Suc (reserve_calls s)\<rparr>)
      else None)"
| "exec (A_enqueue k) s =
     (if k < length (a_node_reserved s)
      then Some (s\<lparr>a_node_reserved := remove_nth k (a_node_reserved s),
                   arena_queue := arena_queue s @ [a_node_reserved s ! k],
                   enqueue_calls := Suc (enqueue_calls s)\<rparr>)
      else None)"
| "exec Arena_start s =
     (case arena_queue s of
        [] \<Rightarrow> None
      | m # q \<Rightarrow>
          if arena_running s = None
          then Some (s\<lparr>arena_queue := q, arena_running := Some (m, Kernel_pending)\<rparr>)
          else None)"
| "exec Arena_kernel s =
     (case arena_running s of
        None \<Rightarrow> None
      | Some (m, ph) \<Rightarrow>
          if ph = Kernel_pending then Some (s\<lparr>arena_running := Some (m, Kernel_done)\<rparr>)
          else None)"
| "exec Arena_put s =
     (case arena_running s of
        None \<Rightarrow> None
      | Some (m, ph) \<Rightarrow>
          if ph = Kernel_done
          then Some (fold (\<lambda>d. put_token d (fst m, sycl_result)) (successors A_node)
                 (s\<lparr>arena_running := Some (m, Put_done),
                    try_put_calls := Suc (try_put_calls s)\<rparr>))
          else None)"
| "exec Arena_release s =
     (case arena_running s of
        None \<Rightarrow> None
      | Some (m, ph) \<Rightarrow>
          if ph = Put_done
          then Some (s\<lparr>arena_running := None, reserved := reserved s - 1,
                       release_calls := Suc (release_calls s)\<rparr>)
          else None)"
| "exec (Cpu_body k) s =
     (if k < length (cpu_node_tasks s)
      then Some (fold (\<lambda>d. put_token d (fst (cpu_node_tasks s ! k), tbb_result))
             (successors Cpu_node)
             (s\<lparr>cpu_node_tasks := remove_nth k (cpu_node_tasks s)\<rparr>))
      else None)"
| "exec Join_forward s =
     (case port0 s of
        [] \<Rightarrow> None
      | t0 # p0 \<Rightarrow>
          (case port1 s of
             [] \<Rightarrow> None
           | t1 # p1 \<Rightarrow>
               Some (fold (\<lambda>d. put_tuple d (t0, t1)) (successors Node_join)
                 (s\<lparr>port0 := p0, port1 := p1\<rparr>))))"
| "exec (Out_body k) s =
     (if k < length (out_node_tasks s)
      then Some (s\<lparr>out_node_tasks := remove_nth k (out_node_tasks s),
                   consumed := consumed s @ [out_node_tasks s ! k]\<rparr>)
      else None)"
| "exec Wait_return s =
     (if main_thread s = Waiting \<and> idle s \<and> reserved s = 0
      then Some (s\<lparr>main_thread := Returned\<rparr>) else None)"

fun run :: "action list \<Rightarrow> graph \<Rightarrow> graph option" where
  "run [] s = Some s"
| "run (a # as) s = (case exec a s of None \<Rightarrow> None | Some s' \<Rightarrow> run as s')"

text \<open>One complete run, used to instantiate the theorems, and the state it ends in.\<close>

definition full_run :: "action list" where
  "full_run =
     [Activate, Source_body, Source_body, Cpu_body 0, A_reserve 0, A_enqueue 0, Arena_start,
      Arena_kernel, Arena_put, Join_forward, Arena_release, Out_body 0, Wait_return]"

definition final_state :: graph where
  "final_state =
     \<lparr>flag_n = True, cached_item = ratio, emitted = 1, source_active = False,
      a_node_tasks = [], a_node_reserved = [], cpu_node_tasks = [],
      arena_queue = [], arena_running = None, port0 = [], port1 = [],
      out_node_tasks = [], consumed = [((0, sycl_result), (0, tbb_result))], reserved = 0,
      reserve_calls = 1, enqueue_calls = 1, try_put_calls = 1, release_calls = 1,
      main_thread = Returned\<rparr>"

text \<open>
  The functions in the arena that have not ended, and whether the running one has called
  \<^verbatim>\<open>try_put\<close> and not yet \<^verbatim>\<open>release_wait\<close>.
\<close>

definition pending_lambdas :: "graph \<Rightarrow> nat" where
  "pending_lambdas s =
     length (arena_queue s) + (case arena_running s of None \<Rightarrow> 0 | Some r \<Rightarrow> 1)"

definition put_not_released :: "graph \<Rightarrow> nat" where
  "put_not_released s =
     (case arena_running s of None \<Rightarrow> 0 | Some (m, ph) \<Rightarrow> if ph = Put_done then 1 else 0)"

text \<open>
  The activations whose device token has not been put yet, those whose device token is
  in the graph, and the same for the CPU path.
\<close>

definition device_pending :: "graph \<Rightarrow> nat multiset" where
  "device_pending s =
     mset (map fst (a_node_tasks s)) + mset (map fst (a_node_reserved s))
     + mset (map fst (arena_queue s))
     + (case arena_running s of
          None \<Rightarrow> {#}
        | Some (m, ph) \<Rightarrow> if ph = Put_done then {#} else {#fst m#})"

definition device_tokens :: "graph \<Rightarrow> nat multiset" where
  "device_tokens s =
     mset (map fst (port0 s)) + mset (map (fst \<circ> fst) (out_node_tasks s))
     + mset (map (fst \<circ> fst) (consumed s))"

definition cpu_pending :: "graph \<Rightarrow> nat multiset" where
  "cpu_pending s = mset (map fst (cpu_node_tasks s))"

definition cpu_tokens :: "graph \<Rightarrow> nat multiset" where
  "cpu_tokens s =
     mset (map fst (port1 s)) + mset (map (fst \<circ> snd) (out_node_tasks s))
     + mset (map (fst \<circ> snd) (consumed s))"

text \<open>The invariants of the state machine.\<close>

definition inv_counters :: "graph \<Rightarrow> bool" where
  "inv_counters s =
     (reserved s = length (a_node_reserved s) + pending_lambdas s
      \<and> reserve_calls s = release_calls s + reserved s
      \<and> reserve_calls s = enqueue_calls s + length (a_node_reserved s)
      \<and> try_put_calls s = release_calls s + put_not_released s
      \<and> try_put_calls s = length (port0 s) + length (out_node_tasks s) + length (consumed s))"

definition inv_tags :: "graph \<Rightarrow> bool" where
  "inv_tags s =
     (device_pending s + device_tokens s = mset [0..<emitted s]
      \<and> cpu_pending s + cpu_tokens s = mset [0..<emitted s])"

definition inv_source :: "graph \<Rightarrow> bool" where
  "inv_source s =
     (emitted s = (if flag_n s then 1 else 0)
      \<and> (main_thread s = Before_activate \<longrightarrow> \<not> source_active s \<and> \<not> flag_n s)
      \<and> (main_thread s \<noteq> Before_activate \<and> \<not> source_active s \<longrightarrow> flag_n s))"

definition inv_values :: "graph \<Rightarrow> bool" where
  "inv_values s =
     (list_all (\<lambda>t. snd t = sycl_result) (port0 s)
      \<and> list_all (\<lambda>t. snd t = tbb_result) (port1 s)
      \<and> list_all (\<lambda>p. snd (fst p) = sycl_result \<and> snd (snd p) = tbb_result) (out_node_tasks s)
      \<and> list_all (\<lambda>p. snd (fst p) = sycl_result \<and> snd (snd p) = tbb_result) (consumed s))"

definition inv_returned :: "graph \<Rightarrow> bool" where
  "inv_returned s = (main_thread s = Returned \<longrightarrow> idle s \<and> reserved s = 0)"

definition invariant :: "graph \<Rightarrow> bool" where
  "invariant s =
     (inv_counters s \<and> inv_tags s \<and> inv_source s \<and> inv_values s \<and> inv_returned s)"

text \<open>
  The program's source emits one value, so a run of the program has one activation of the
  two paths. To speak of \<open>K\<close> activations, the body of the source is generalised: it sets
  its flag at the \<open>K\<close>-th value it produces instead of the first one, \<open>cnt\<close> being the number
  of values produced before. For \<open>K = 1\<close> this is the body of the program. The library
  invokes the body again as soon as it has passed the previous value on, whether or not the
  nodes downstream have finished with it.
\<close>

definition in_node_times :: "nat \<Rightarrow> nat \<Rightarrow> bool \<Rightarrow> f32 \<Rightarrow> bool \<times> f32 \<times> bool" where
  "in_node_times K cnt n offload_ratio =
     (if n then (False, offload_ratio, n) else (True, ratio, K \<le> Suc cnt))"

text \<open>The graph of the program with such a source: every other action is as in \<open>exec\<close>.\<close>

fun exec_times :: "nat \<Rightarrow> action \<Rightarrow> graph \<Rightarrow> graph option" where
  "exec_times K Source_body s =
     (if source_active s
      then (case in_node_times K (emitted s) (flag_n s) (cached_item s) of
              (produced, v, n') \<Rightarrow>
                if produced
                then Some (fold (\<lambda>d. put_ratio d (emitted s, v)) (successors In_node)
                       (s\<lparr>flag_n := n', cached_item := v, emitted := Suc (emitted s)\<rparr>))
                else Some (s\<lparr>flag_n := n', cached_item := v, source_active := False\<rparr>))
      else None)"
| "exec_times K a s = exec a s"

fun run_times :: "nat \<Rightarrow> action list \<Rightarrow> graph \<Rightarrow> graph option" where
  "run_times K [] s = Some s"
| "run_times K (a # as) s =
     (case exec_times K a s of None \<Rightarrow> None | Some s' \<Rightarrow> run_times K as s')"

text \<open>
  A run in which no two activations are in the graph together: whenever the source
  produces a value, \<^verbatim>\<open>out_node\<close> has been invoked for every value produced before.
\<close>

fun sequential :: "nat \<Rightarrow> action list \<Rightarrow> graph \<Rightarrow> bool" where
  "sequential K [] s = True"
| "sequential K (a # as) s =
     ((a = Source_body \<and> \<not> flag_n s \<longrightarrow> length (consumed s) = emitted s)
      \<and> (case exec_times K a s of None \<Rightarrow> True | Some s' \<Rightarrow> sequential K as s'))"

text \<open>A tuple whose two tokens come from the same activation.\<close>

definition same_activation :: "(nat \<times> rat) \<times> (nat \<times> rat) \<Rightarrow> bool" where
  "same_activation p = (fst (fst p) = fst (snd p))"

text \<open>The activations with work or a token on the way to the join.\<close>

definition in_flight :: "graph \<Rightarrow> nat multiset" where
  "in_flight s =
     device_pending s + mset (map fst (port0 s)) + cpu_pending s + mset (map fst (port1 s))"

text \<open>The invariants of the graph with the generalised source.\<close>

definition inv_source_times :: "nat \<Rightarrow> graph \<Rightarrow> bool" where
  "inv_source_times K s =
     (emitted s \<le> K \<and> (flag_n s \<longleftrightarrow> K \<le> emitted s)
      \<and> (main_thread s = Before_activate \<longrightarrow> \<not> source_active s)
      \<and> (main_thread s \<noteq> Before_activate \<and> \<not> source_active s \<longrightarrow> flag_n s))"

definition inv_sequential :: "graph \<Rightarrow> bool" where
  "inv_sequential s =
     (list_all same_activation (consumed s) \<and> list_all same_activation (out_node_tasks s)
      \<and> (\<forall>i \<in># in_flight s. Suc i = emitted s))"

definition invariant_times :: "nat \<Rightarrow> graph \<Rightarrow> bool" where
  "invariant_times K s =
     (inv_counters s \<and> inv_tags s \<and> inv_source_times K s \<and> inv_values s \<and> inv_returned s)"

text \<open>
  Two runs of a source that emits twice, used to instantiate the theorems. In
  \<open>sequential_run\<close> the second value is produced after \<^verbatim>\<open>out_node\<close> has run for the first.
  In \<open>crossed_run\<close> both values are produced at once; \<^verbatim>\<open>cpu_node\<close> runs on the second
  first, while the arena takes the first; \<open>crossed_state\<close> is the state after \<^verbatim>\<open>out_node\<close>
  has run on the first tuple, and \<open>crossed_rest\<close> completes the run.
\<close>

definition crossed_run :: "action list" where
  "crossed_run =
     [Activate, Source_body, Source_body, Cpu_body 1, A_reserve 0, A_enqueue 0, Arena_start,
      Arena_kernel, Arena_put, Join_forward, Out_body 0]"

definition crossed_state :: graph where
  "crossed_state =
     \<lparr>flag_n = True, cached_item = ratio, emitted = 2, source_active = True,
      a_node_tasks = [(1, ratio)], a_node_reserved = [], cpu_node_tasks = [(0, ratio)],
      arena_queue = [], arena_running = Some ((0, ratio), Put_done), port0 = [], port1 = [],
      out_node_tasks = [], consumed = [((0, sycl_result), (1, tbb_result))], reserved = 1,
      reserve_calls = 1, enqueue_calls = 1, try_put_calls = 1, release_calls = 0,
      main_thread = Waiting\<rparr>"

definition crossed_rest :: "action list" where
  "crossed_rest =
     [Arena_release, Cpu_body 0, A_reserve 0, A_enqueue 0, Arena_start, Arena_kernel, Arena_put,
      Arena_release, Join_forward, Out_body 0, Source_body, Wait_return]"

definition crossed_final :: graph where
  "crossed_final =
     \<lparr>flag_n = True, cached_item = ratio, emitted = 2, source_active = False,
      a_node_tasks = [], a_node_reserved = [], cpu_node_tasks = [],
      arena_queue = [], arena_running = None, port0 = [], port1 = [],
      out_node_tasks = [],
      consumed = [((0, sycl_result), (1, tbb_result)), ((1, sycl_result), (0, tbb_result))],
      reserved = 0, reserve_calls = 2, enqueue_calls = 2, try_put_calls = 2, release_calls = 2,
      main_thread = Returned\<rparr>"

definition sequential_run :: "action list" where
  "sequential_run =
     [Activate,
      Source_body, Cpu_body 0, A_reserve 0, A_enqueue 0, Arena_start, Arena_kernel, Arena_put,
      Arena_release, Join_forward, Out_body 0,
      Source_body, Cpu_body 0, A_reserve 0, A_enqueue 0, Arena_start, Arena_kernel, Arena_put,
      Arena_release, Join_forward, Out_body 0,
      Source_body, Wait_return]"

definition sequential_final :: graph where
  "sequential_final =
     \<lparr>flag_n = True, cached_item = ratio, emitted = 2, source_active = False,
      a_node_tasks = [], a_node_reserved = [], cpu_node_tasks = [],
      arena_queue = [], arena_running = None, port0 = [], port1 = [],
      out_node_tasks = [],
      consumed = [((0, sycl_result), (0, tbb_result)), ((1, sycl_result), (1, tbb_result))],
      reserved = 0, reserve_calls = 2, enqueue_calls = 2, try_put_calls = 2, release_calls = 2,
      main_thread = Returned\<rparr>"

section \<open>Device errors\<close>

text \<open>
  The program defines \<^verbatim>\<open>exception_handler\<close>: given a list of exceptions, it rethrows the
  first one and, if that is a \<^verbatim>\<open>cl::sycl::exception\<close>, ends the process with
  \<^verbatim>\<open>std::terminate()\<close>; an exception of any other type is not caught and leaves the
  handler.
\<close>

datatype exn = Sycl_exception | Other_exception

datatype outcome = Continue | Terminate | Escapes exn

fun exception_handler :: "exn list \<Rightarrow> outcome" where
  "exception_handler [] = Continue"
| "exception_handler (Sycl_exception # exceptionList) = Terminate"
| "exception_handler (Other_exception # exceptionList) = Escapes Other_exception"

text \<open>
  A queue may be constructed with a handler for asynchronous errors. The program declares
  its queue as \<^verbatim>\<open>queue q;\<close>, with none, and \<^verbatim>\<open>exception_handler\<close> is not mentioned again
  after its definition.
\<close>

record queue =
  async_handler :: "(exn list \<Rightarrow> outcome) option"

definition queue_q :: queue where
  "queue_q = \<lparr>async_handler = None\<rparr>"

text \<open>
  \<^verbatim>\<open>wait_and_throw\<close> waits for the kernel and passes the asynchronous errors the device
  has reported, if any, to the handler of the queue. In SYCL 1.2.1, the interface of
  \<^verbatim>\<open><CL/sycl.hpp>\<close>, an asynchronous error of a queue that has no handler is not
  reported: no exception is thrown.
\<close>

definition wait_and_throw :: "queue \<Rightarrow> exn list \<Rightarrow> outcome" where
  "wait_and_throw qu errors =
     (if errors = [] then Continue
      else case async_handler qu of None \<Rightarrow> Continue | Some h \<Rightarrow> h errors)"

text \<open>
  What the function enqueued by \<^verbatim>\<open>AsyncActivity::run\<close> does once the device has reported
  \<open>errors\<close> for the kernel: how \<^verbatim>\<open>wait_and_throw\<close> ends, and the calls to the gateway that
  follow it.
\<close>

datatype gateway_call = Try_put rat | Release_wait

definition after_kernel :: "exn list \<Rightarrow> outcome \<times> gateway_call list" where
  "after_kernel errors =
     (case wait_and_throw queue_q errors of
        Continue \<Rightarrow> (Continue, [Try_put sycl_result, Release_wait])
      | Terminate \<Rightarrow> (Terminate, [])
      | Escapes e \<Rightarrow> (Escapes e, []))"



section \<open>Rounding\<close>

subsection \<open>Binary digits\<close>

lemma bit_length_pos: "0 < m \<Longrightarrow> bit_length m = Suc (bit_length (m div 2))"
  by simp

lemma bit_length_nonpos: "m \<le> 0 \<Longrightarrow> bit_length m = 0"
  by simp

declare bit_length.simps [simp del]

lemma bit_length_upper: "m < 2 ^ bit_length m"
proof (induction m rule: bit_length.induct)
  case (1 m)
  show ?case
  proof (cases "m \<le> 0")
    case True
    then show ?thesis by (simp add: bit_length_nonpos)
  next
    case False
    then have "m div 2 < 2 ^ bit_length (m div 2)" using 1 by simp
    then have "m < 2 * 2 ^ bit_length (m div 2)" by linarith
    then show ?thesis using False by (simp add: bit_length_pos)
  qed
qed

lemma bit_length_lower: "0 < m \<Longrightarrow> 2 ^ (bit_length m - 1) \<le> m"
proof (induction m rule: bit_length.induct)
  case (1 m)
  show ?case
  proof (cases "m div 2 \<le> 0")
    case True
    then show ?thesis using 1(2) by (simp add: bit_length_pos bit_length_nonpos)
  next
    case False
    then have "2 ^ (bit_length (m div 2) - 1) \<le> m div 2" using 1 by simp
    moreover have "bit_length (m div 2) = Suc (bit_length (m div 2) - 1)"
      using False by (simp add: bit_length_pos)
    ultimately have "2 ^ bit_length (m div 2) \<le> 2 * (m div 2)"
      by (metis mult_le_cancel_left_pos power_Suc zero_less_numeral)
    then show ?thesis using 1(2) by (simp add: bit_length_pos)
  qed
qed

lemma bit_length_mono: "m \<le> k \<Longrightarrow> bit_length m \<le> bit_length k"
proof (induction m arbitrary: k rule: bit_length.induct)
  case (1 m)
  show ?case
  proof (cases "m \<le> 0")
    case True
    then show ?thesis by (simp add: bit_length_nonpos)
  next
    case False
    then have "m div 2 \<le> k div 2" "0 < k" using 1(2) by (auto intro: zdiv_mono1)
    then show ?thesis using 1(1)[of "k div 2"] False by (simp add: bit_length_pos)
  qed
qed

subsection \<open>Rounding to an integer\<close>

lemma rhe_le: "q \<le> of_int k \<Longrightarrow> round_half_even q \<le> k"
proof -
  assume h: "q \<le> of_int k"
  then have nk: "\<lfloor>q\<rfloor> \<le> k" by (simp add: floor_le_iff) 
  show ?thesis
  proof (cases "\<lfloor>q\<rfloor> = k")
    case True
    then have "q - of_int \<lfloor>q\<rfloor> \<le> 0" using h by simp
    then show ?thesis using True by (simp add: round_half_even_def Let_def)
  next
    case False
    then have "\<lfloor>q\<rfloor> + 1 \<le> k" using nk by simp
    then show ?thesis by (simp add: round_half_even_def Let_def)
  qed
qed

lemma rhe_ge: "of_int k \<le> q \<Longrightarrow> k \<le> round_half_even q"
proof -
  assume "of_int k \<le> q"
  then have "k \<le> \<lfloor>q\<rfloor>" by (simp add: le_floor_iff)
  then show ?thesis by (simp add: round_half_even_def Let_def)
qed

lemma rhe_mono: "q \<le> q' \<Longrightarrow> round_half_even q \<le> round_half_even q'"
proof -
  assume h: "q \<le> q'"
  then have nk: "\<lfloor>q\<rfloor> \<le> \<lfloor>q'\<rfloor>" by (rule floor_mono)
  show ?thesis
  proof (cases "\<lfloor>q\<rfloor> = \<lfloor>q'\<rfloor>")
    case True
    then show ?thesis using h by (simp add: round_half_even_def Let_def)
  next
    case False
    then have "\<lfloor>q\<rfloor> + 1 \<le> \<lfloor>q'\<rfloor>" using nk by simp
    moreover have "round_half_even q \<le> \<lfloor>q\<rfloor> + 1" by (simp add: round_half_even_def Let_def)
    moreover have "\<lfloor>q'\<rfloor> \<le> round_half_even q'" by (simp add: round_half_even_def Let_def)
    ultimately show ?thesis by linarith
  qed
qed

lemma rhe_of_int: "round_half_even (of_int k) = k"
  by (simp add: round_half_even_def)

subsection \<open>Rounding to 24 significant bits\<close>

text \<open>
  The rounding is monotone, exact on the values that need no rounding, and idempotent.
\<close>

lemma bit_length_le: "m < 2 ^ w \<Longrightarrow> bit_length m \<le> w"
proof (cases "0 < m")
  case True
  assume "m < 2 ^ w"
  with bit_length_lower[OF True] have "(2::int) ^ (bit_length m - 1) < 2 ^ w" by linarith
  then have "bit_length m - 1 < w" by simp
  then show ?thesis by simp
next
  case False
  then show ?thesis by (simp add: bit_length_nonpos)
qed

lemma ulp_shift_upper: "x * 2 ^ 149 < 2 ^ (ulp_shift x + 24)"
proof -
  let ?m = "\<lfloor>x * 2 ^ 149\<rfloor>"
  have "bit_length ?m \<le> ulp_shift x + 24" by (simp add: ulp_shift_def)
  then have "(2::int) ^ bit_length ?m \<le> 2 ^ (ulp_shift x + 24)" by simp
  with bit_length_upper[of ?m] have "?m < 2 ^ (ulp_shift x + 24)" by linarith
  then have "x * 2 ^ 149 < of_int (2 ^ (ulp_shift x + 24))" by (simp only: floor_less_iff)
  then show ?thesis by simp
qed

lemma ulp_shift_lower: "0 < ulp_shift x \<Longrightarrow> 2 ^ (ulp_shift x + 23) \<le> x * 2 ^ 149"
proof -
  let ?m = "\<lfloor>x * 2 ^ 149\<rfloor>"
  assume h: "0 < ulp_shift x"
  then have bl: "bit_length ?m - 1 = ulp_shift x + 23" by (simp add: ulp_shift_def)
  have "0 < ?m" using h by (cases "0 < ?m") (simp_all add: ulp_shift_def bit_length_nonpos)
  then have "2 ^ (ulp_shift x + 23) \<le> ?m" using bit_length_lower[of ?m] bl by simp
  then have "of_int (2 ^ (ulp_shift x + 23)) \<le> x * 2 ^ 149" by (simp only: le_floor_iff)
  then show ?thesis by simp
qed

lemma ulp_shift_mono: "x \<le> y \<Longrightarrow> ulp_shift x \<le> ulp_shift y"
proof -
  assume "x \<le> y"
  then have "\<lfloor>x * 2 ^ 149\<rfloor> \<le> \<lfloor>y * 2 ^ 149\<rfloor>" by (intro floor_mono) simp
  then show ?thesis unfolding ulp_shift_def by (intro diff_le_mono bit_length_mono)
qed

lemma rnd_mag_scaled:
  "rnd_mag x * 2 ^ 149 = of_int (round_half_even (x * 2 ^ 149 / 2 ^ ulp_shift x)) * 2 ^ ulp_shift x"
  by (simp add: rnd_mag_def Let_def)

lemma rnd_mag_le:
  assumes "x * 2 ^ 149 \<le> of_int k * 2 ^ ulp_shift x"
  shows "rnd_mag x * 2 ^ 149 \<le> of_int k * 2 ^ ulp_shift x"
proof -
  have "x * 2 ^ 149 / 2 ^ ulp_shift x \<le> of_int k"
    using assms by (simp add: pos_divide_le_eq)
  then have "round_half_even (x * 2 ^ 149 / 2 ^ ulp_shift x) \<le> k" by (rule rhe_le)
  then have "(of_int (round_half_even (x * 2 ^ 149 / 2 ^ ulp_shift x)) :: rat) \<le> of_int k"
    by simp
  then show ?thesis unfolding rnd_mag_scaled by (simp add: mult_right_mono)
qed

lemma rnd_mag_ge:
  assumes "of_int k * 2 ^ ulp_shift x \<le> x * 2 ^ 149"
  shows "of_int k * 2 ^ ulp_shift x \<le> rnd_mag x * 2 ^ 149"
proof -
  have "of_int k \<le> x * 2 ^ 149 / 2 ^ ulp_shift x"
    using assms by (simp add: pos_le_divide_eq)
  then have "k \<le> round_half_even (x * 2 ^ 149 / 2 ^ ulp_shift x)" by (rule rhe_ge)
  then have "(of_int k :: rat) \<le> of_int (round_half_even (x * 2 ^ 149 / 2 ^ ulp_shift x))"
    by simp
  then show ?thesis unfolding rnd_mag_scaled by (simp add: mult_right_mono)
qed

lemma rnd_mag_nonneg: "0 \<le> x \<Longrightarrow> 0 \<le> rnd_mag x"
  using rnd_mag_ge[of 0 x] by simp

lemma rnd_mag_exact:
  assumes "x * 2 ^ 149 = of_int k * 2 ^ ulp_shift x"
  shows "rnd_mag x = x"
proof -
  have "rnd_mag x * 2 ^ 149 = x * 2 ^ 149"
    using rnd_mag_le[of x k] rnd_mag_ge[of k x] assms by simp
  then show ?thesis by simp
qed

lemma rnd_mag_mono:
  assumes "x \<le> y"
  shows "rnd_mag x \<le> rnd_mag y"
proof -
  have s: "ulp_shift x \<le> ulp_shift y" using assms by (rule ulp_shift_mono)
  have "rnd_mag x * 2 ^ 149 \<le> rnd_mag y * 2 ^ 149"
  proof (cases "ulp_shift x = ulp_shift y")
    case True
    have "x * 2 ^ 149 / 2 ^ ulp_shift y \<le> y * 2 ^ 149 / 2 ^ ulp_shift y"
      using assms by (simp add: divide_right_mono)
    then have "round_half_even (x * 2 ^ 149 / 2 ^ ulp_shift y)
        \<le> round_half_even (y * 2 ^ 149 / 2 ^ ulp_shift y)" by (rule rhe_mono)
    then have "(of_int (round_half_even (x * 2 ^ 149 / 2 ^ ulp_shift y)) :: rat)
        \<le> of_int (round_half_even (y * 2 ^ 149 / 2 ^ ulp_shift y))" by simp
    then show ?thesis unfolding rnd_mag_scaled True by (simp add: mult_right_mono)
  next
    case False
    then have lt: "ulp_shift x + 24 \<le> ulp_shift y + 23" and pos: "0 < ulp_shift y"
      using s by simp_all
    have "x * 2 ^ 149 \<le> of_int (2 ^ 24) * 2 ^ ulp_shift x"
      using ulp_shift_upper[of x] by (simp add: power_add mult.commute)
    then have "rnd_mag x * 2 ^ 149 \<le> of_int (2 ^ 24) * 2 ^ ulp_shift x" by (rule rnd_mag_le)
    also have "\<dots> = 2 ^ (ulp_shift x + 24)" by (simp add: power_add)
    also have "\<dots> \<le> (2::rat) ^ (ulp_shift y + 23)" using lt by (simp only: power_increasing_iff one_less_numeral_iff semiring_norm)
    also have "\<dots> = of_int (2 ^ 23) * 2 ^ ulp_shift y" by (simp add: power_add)
    also have "\<dots> \<le> rnd_mag y * 2 ^ 149"
      using ulp_shift_lower[OF pos] by (intro rnd_mag_ge) (simp add: power_add mult.commute)
    finally show ?thesis .
  qed
  then show ?thesis by simp
qed

lemma rnd32_nonneg: "0 \<le> x \<Longrightarrow> 0 \<le> rnd32 x"
  by (simp add: rnd32_def rnd_mag_nonneg)

lemma rnd32_mono: "x \<le> y \<Longrightarrow> rnd32 x \<le> rnd32 y"
proof -
  assume h: "x \<le> y"
  consider "x < 0" "y < 0" | "x < 0" "0 \<le> y" | "0 \<le> x" "0 \<le> y" using h by linarith
  then show ?thesis
  proof cases
    case 1
    then show ?thesis using rnd_mag_mono[of "- y" "- x"] h by (simp add: rnd32_def)
  next
    case 2
    then show ?thesis using rnd_mag_nonneg[of "- x"] rnd_mag_nonneg[of y] by (simp add: rnd32_def)
  next
    case 3
    then show ?thesis using rnd_mag_mono[OF h] by (simp add: rnd32_def)
  qed
qed

lemma rnd32_of_nat_small:
  assumes "N \<le> 2 ^ 24"
  shows "rnd32 (of_nat N) = of_nat N"
proof (cases "N = 2 ^ 24")
  case True
  have "rnd32 16777216 = 16777216" by code_simp
  then show ?thesis using True by simp
next
  case False
  then have lt: "N < 2 ^ 24" using assms by simp
  let ?x = "of_nat N :: rat"
  have fl: "\<lfloor>?x * 2 ^ 149\<rfloor> = int N * 2 ^ 149"
  proof -
    have "?x * 2 ^ 149 = of_int (int N * 2 ^ 149)" by simp
    then show ?thesis by (simp only: floor_of_int)
  qed
  have "int N * 2 ^ 149 < 2 ^ 24 * 2 ^ 149" using lt by simp
  then have "int N * 2 ^ 149 < 2 ^ 173" by simp
  then have "bit_length (int N * 2 ^ 149) \<le> 173" by (rule bit_length_le)
  then have s: "ulp_shift ?x \<le> 149" unfolding ulp_shift_def fl by simp
  have "?x * 2 ^ 149 = of_int (int N * 2 ^ (149 - ulp_shift ?x)) * 2 ^ ulp_shift ?x"
    using s by (simp add: power_add[symmetric])
  then have "rnd_mag ?x = ?x" by (rule rnd_mag_exact)
  then show ?thesis by (simp add: rnd32_def)
qed

lemma flt_max_ge: "2 ^ 64 \<le> flt_max"
  by (simp add: flt_max_def)

lemma to_f32_Fin: "0 \<le> x \<Longrightarrow> rnd32 x \<le> 2 ^ 64 \<Longrightarrow> to_f32 x = Fin (rnd32 x)"
  using flt_max_ge rnd32_nonneg[of x] by (simp add: to_f32_def Let_def)

lemma rnd_mag_idem:
  assumes "0 \<le> x"
  shows "rnd_mag (rnd_mag x) = rnd_mag x"
proof -
  define s where "s = ulp_shift x"
  define k where "k = round_half_even (x * 2 ^ 149 / 2 ^ s)"
  define y where "y = rnd_mag x"
  define t where "t = ulp_shift y"
  have yk: "y * 2 ^ 149 = of_int k * 2 ^ s"
    unfolding y_def k_def s_def by (rule rnd_mag_scaled)
  have "x * 2 ^ 149 / 2 ^ s \<le> of_int (2 ^ 24)"
    using ulp_shift_upper[of x] by (simp add: s_def pos_divide_le_eq power_add mult.commute)
  then have k_le: "k \<le> 2 ^ 24" unfolding k_def by (rule rhe_le)
  have fl: "\<lfloor>y * 2 ^ 149\<rfloor> = k * 2 ^ s"
  proof -
    have "y * 2 ^ 149 = of_int (k * 2 ^ s)" using yk by simp
    then show ?thesis by (simp only: floor_of_int)
  qed
  have t_eq: "t = bit_length (k * 2 ^ s) - 24" by (simp only: t_def ulp_shift_def fl)
  have "\<exists>j. y * 2 ^ 149 = of_int j * 2 ^ t"
  proof (cases "t \<le> s")
    case True
    then have "y * 2 ^ 149 = of_int (k * 2 ^ (s - t)) * 2 ^ t"
      using yk by (simp add: power_add[symmetric])
    then show ?thesis ..
  next
    case False
    then have "s + 25 \<le> bit_length (k * 2 ^ s)" using t_eq by simp
    then have "\<not> k * 2 ^ s < 2 ^ (s + 24)" using bit_length_le[of "k * 2 ^ s" "s + 24"] by auto
    then have "(2::int) ^ 24 * 2 ^ s \<le> k * 2 ^ s" by (simp add: power_add mult.commute)
    then have "2 ^ 24 \<le> k" by simp
    then have k: "k = 2 ^ 24" using k_le by simp
    have "k * 2 ^ s < 2 ^ (s + 25)" by (simp add: k power_add)
    then have "bit_length (k * 2 ^ s) \<le> s + 25" by (rule bit_length_le)
    then have t: "t = Suc s" using False t_eq by simp
    have "y * 2 ^ 149 = of_int (2 ^ 23) * 2 ^ t" using yk by (simp add: k t)
    then show ?thesis ..
  qed
  then obtain j where "y * 2 ^ 149 = of_int j * 2 ^ ulp_shift y" unfolding t_def ..
  then have "rnd_mag y = y" by (rule rnd_mag_exact)
  then show ?thesis by (simp add: y_def)
qed

lemma rnd32_idem: "0 \<le> x \<Longrightarrow> rnd32 (rnd32 x) = rnd32 x"
  using rnd_mag_nonneg[of x] by (simp add: rnd32_def rnd_mag_idem)

lemma rnd_mag_integral:
  assumes "0 \<le> x"
  shows "(\<exists>j. rnd_mag x = of_int j) \<or> rnd_mag x \<le> 2 ^ 23"
proof -
  define s where "s = ulp_shift x"
  define k where "k = round_half_even (x * 2 ^ 149 / 2 ^ s)"
  have yk: "rnd_mag x * 2 ^ 149 = of_int k * 2 ^ s"
    unfolding k_def s_def by (rule rnd_mag_scaled)
  have "x * 2 ^ 149 / 2 ^ s \<le> of_int (2 ^ 24)"
    using ulp_shift_upper[of x] by (simp add: s_def pos_divide_le_eq power_add mult.commute)
  then have k_le: "k \<le> 2 ^ 24" unfolding k_def by (rule rhe_le)
  show ?thesis
  proof (cases "149 \<le> s")
    case True
    then have "(2::rat) ^ s = 2 ^ (s - 149 + 149)" by simp
    also have "\<dots> = 2 ^ (s - 149) * 2 ^ 149" by (rule power_add)
    finally have "rnd_mag x * 2 ^ 149 = (of_int k * 2 ^ (s - 149)) * 2 ^ 149"
      by (simp only: yk mult.assoc)
    moreover have c: "(2::rat) ^ 149 \<noteq> 0" by simp
    ultimately have "rnd_mag x = of_int k * 2 ^ (s - 149)"
      using mult_right_cancel[OF c] by blast
    then have "rnd_mag x = of_int (k * 2 ^ (s - 149))" by simp
    then show ?thesis by blast
  next
    case False
    then have "Suc s \<le> 149" by simp
    then have "(2::rat) ^ Suc s \<le> 2 ^ 149" by (simp only: power_increasing_iff one_less_numeral_iff semiring_norm)
    then have s2: "(2::rat) ^ s * 2 ^ 24 \<le> 2 ^ 149 * 2 ^ 23" by simp
    have "(of_int k :: rat) \<le> of_int (2 ^ 24)" using k_le by (simp only: of_int_le_iff)
    then have "rnd_mag x * 2 ^ 149 \<le> 2 ^ 24 * 2 ^ s"
      unfolding yk by (simp add: mult_right_mono)
    also have "\<dots> \<le> 2 ^ 23 * 2 ^ 149" using s2 by (simp add: mult.commute)
    finally have "rnd_mag x \<le> 2 ^ 23" by (simp only: mult_le_cancel_right_pos zero_less_power zero_less_numeral)
    then show ?thesis by blast
  qed
qed

lemma rnd32_ceiling_less:
  assumes "0 \<le> x" and "rnd32 x < 2 ^ 64"
  shows "of_int \<lceil>rnd32 x\<rceil> < (2::rat) ^ 64"
proof -
  have eq: "rnd32 x = rnd_mag x" using assms(1) by (simp add: rnd32_def)
  from rnd_mag_integral[OF assms(1)] show ?thesis
  proof
    assume "\<exists>j. rnd_mag x = of_int j"
    then obtain j where "rnd_mag x = of_int j" ..
    then show ?thesis using assms(2) by (simp add: eq)
  next
    assume "rnd_mag x \<le> 2 ^ 23"
    then have "rnd32 x \<le> of_int (2 ^ 23)" by (simp add: eq)
    then have "\<lceil>rnd32 x\<rceil> \<le> 2 ^ 23" by (simp only: ceiling_le_iff)
    then have "(of_int \<lceil>rnd32 x\<rceil> :: rat) \<le> of_int (2 ^ 23)" by (simp only: of_int_le_iff)
    then show ?thesis by simp
  qed
qed

lemma rnd32_2_64: "rnd32 (2 ^ 64) = 2 ^ 64"
proof -
  have "rnd32 18446744073709551616 = 18446744073709551616" by code_simp
  then show ?thesis by simp
qed

section \<open>Properties of the partition\<close>

text \<open>The split point, for a size that converts to a \<^verbatim>\<open>float\<close> of at most \<open>2\<^sup>6\<^sup>4\<close>.\<close>

lemma split_formula:
  assumes N: "rnd32 (of_nat N) \<le> 2 ^ 64" and r: "0 \<le> r" "r \<le> 1"
  shows "array_size_sycl N (Fin r) =
           (if of_int \<lceil>rnd32 (rnd32 (of_nat N) * r)\<rceil> < (2::rat) ^ 64
            then Some (nat \<lceil>rnd32 (rnd32 (of_nat N) * r)\<rceil>) else None)"
    and "rnd32 (rnd32 (of_nat N) * r) \<le> rnd32 (of_nat N)"
    and "0 \<le> rnd32 (rnd32 (of_nat N) * r)"
proof -
  let ?F = "rnd32 (of_nat N)"
  let ?p = "rnd32 (?F * r)"
  have F0: "0 \<le> ?F" by (simp add: rnd32_nonneg)
  have size: "f32_of_size N = Fin ?F"
    using N by (simp add: f32_of_size_def to_f32_Fin)
  have le: "?F * r \<le> ?F" using F0 r by (simp add: mult_left_le)
  then have "?p \<le> rnd32 ?F" by (rule rnd32_mono)
  then show p_le: "?p \<le> ?F" by (simp add: rnd32_idem)
  show p0: "0 \<le> ?p" using F0 r by (simp add: rnd32_nonneg)
  have mul: "fmul (f32_of_size N) (Fin r) = Fin ?p"
    using p_le N F0 r by (simp add: size to_f32_Fin)
  have "- 1 < (of_int \<lceil>?p\<rceil> :: rat)"
  proof -
    have "\<lceil>0::rat\<rceil> \<le> \<lceil>?p\<rceil>" using p0 by (rule ceiling_mono)
    then have "(0::rat) \<le> of_int \<lceil>?p\<rceil>" by simp
    then show ?thesis by linarith
  qed
  then show "array_size_sycl N (Fin r) =
      (if of_int \<lceil>?p\<rceil> < (2::rat) ^ 64 then Some (nat \<lceil>?p\<rceil>) else None)"
    by (simp only: array_size_sycl_def mul fceil.simps size_of_f32.simps floor_of_int simp_thms)
qed

lemma split_value:
  assumes N: "rnd32 (of_nat N) < 2 ^ 64" and r: "0 \<le> r" "r \<le> 1"
  shows "array_size_sycl N (Fin r) = Some (nat \<lceil>rnd32 (rnd32 (of_nat N) * r)\<rceil>)"
    and "rnd32 (rnd32 (of_nat N) * r) \<le> rnd32 (of_nat N)"
    and "0 \<le> rnd32 (rnd32 (of_nat N) * r)"
proof -
  let ?F = "rnd32 (of_nat N)"
  let ?p = "rnd32 (?F * r)"
  have N': "?F \<le> 2 ^ 64" using N by simp
  show p_le: "?p \<le> ?F" using N' r by (rule split_formula)
  show "0 \<le> ?p" using N' r by (rule split_formula)
  have "0 \<le> ?F * r" using rnd32_nonneg[of "of_nat N"] r by simp
  moreover have "?p < 2 ^ 64" using p_le N by simp
  ultimately have "of_int \<lceil>?p\<rceil> < (2::rat) ^ 64" by (rule rnd32_ceiling_less)
  then show "array_size_sycl N (Fin r) = Some (nat \<lceil>?p\<rceil>)"
    using split_formula(1)[OF N' r] by simp
qed

lemma i_start_eq: "i_start N r = array_size_sycl N r"
  by (simp add: i_start_def array_size_sycl_def)

lemma range_split:
  "e \<le> N \<Longrightarrow>
     range_set (0, e) \<inter> range_set (e, N) = {}
     \<and> range_set (0, e) \<union> range_set (e, N) = {0..<N}"
  by (auto simp: range_set_def)

text \<open>
  Claim C1, as amended. Let \<open>N\<close> be a size whose conversion to \<^verbatim>\<open>float\<close> does not
  exceed \<open>N\<close> (every \<open>N\<close> up to \<open>2\<^sup>2\<^sup>4\<close> converts exactly, see \<open>rnd32_of_nat_small\<close>; the
  program has \<open>N = 16\<close>), and let the ratio be in \<open>[0, 1]\<close>. Then the device range
  \<open>[0, e)\<close> computed in \<^verbatim>\<open>AsyncActivity::run\<close> and the CPU range \<open>[e, N)\<close> computed in
  \<^verbatim>\<open>cpu_node\<close> meet at the same split point \<open>e\<close>, are disjoint, and their union is
  exactly \<open>[0, N)\<close>.
\<close>

theorem partition_exact:
  assumes "N < 2 ^ 64" and "rnd32 (of_nat N) \<le> of_nat N" and "0 \<le> r" and "r \<le> 1"
  shows "\<exists>e. device_range N (Fin r) = Some (0, e) \<and> cpu_range N (Fin r) = Some (e, N)
           \<and> range_set (0, e) \<inter> range_set (e, N) = {}
           \<and> range_set (0, e) \<union> range_set (e, N) = {0..<N}"
proof -
  let ?p = "rnd32 (rnd32 (of_nat N) * r)"
  have "(of_nat N :: rat) < 2 ^ 64"
    using assms(1) by (simp only: of_nat_less_numeral_power_cancel_iff)
  then have F: "rnd32 (of_nat N) < 2 ^ 64" using assms(2) by linarith
  have e: "array_size_sycl N (Fin r) = Some (nat \<lceil>?p\<rceil>)"
    using F assms(3,4) by (rule split_value)
  have "?p \<le> rnd32 (of_nat N)" using F assms(3,4) by (rule split_value)
  then have "?p \<le> of_int (int N)" using assms(2) by simp
  then have "\<lceil>?p\<rceil> \<le> int N" by (simp only: ceiling_le_iff)
  then have le: "nat \<lceil>?p\<rceil> \<le> N" by simp
  have "device_range N (Fin r) = Some (0, nat \<lceil>?p\<rceil>)" by (simp add: device_range_def e)
  moreover have "cpu_range N (Fin r) = Some (nat \<lceil>?p\<rceil>, N)"
    by (simp add: cpu_range_def i_start_eq e i_end_def)
  ultimately show ?thesis using range_split[OF le] by blast
qed

text \<open>The theorem at the program's own size and ratio.\<close>

theorem partition_exact_witness:
  "(16::nat) < 2 ^ 64 \<and> rnd32 (of_nat 16) \<le> of_nat 16 \<and> (0::rat) \<le> 1 / 2 \<and> (1 / 2 :: rat) \<le> 1
   \<and> (\<exists>e. device_range 16 (Fin (1 / 2)) = Some (0, e) \<and> cpu_range 16 (Fin (1 / 2)) = Some (e, 16)
           \<and> range_set (0, e) \<inter> range_set (e, 16) = {}
           \<and> range_set (0, e) \<union> range_set (e, 16) = {0..<16})"
proof -
  have h1: "(16::nat) < 2 ^ 64" by simp
  have "rnd32 16 = 16" by code_simp
  then have h2: "rnd32 (of_nat 16) \<le> of_nat 16" by simp
  have h3: "(0::rat) \<le> 1 / 2" and h4: "(1 / 2 :: rat) \<le> 1" by simp_all
  from partition_exact[OF h1 h2 h3 h4] h1 h2 h3 h4 show ?thesis by blast
qed

lemma rnd32_16777219: "rnd32 16777219 = 16777220"
  by code_simp

lemma rnd32_16777220: "rnd32 16777220 = 16777220"
  by code_simp

lemma split_16777219: "array_size_sycl 16777219 (Fin 1) = Some 16777220"
  by (simp add: array_size_sycl_def f32_of_size_def to_f32_def rnd32_16777219 rnd32_16777220
      flt_max_def)

text \<open>
  Claim C1 as stated, for every \<open>N > 0\<close>, fails at \<open>N = 16777219\<close> and ratio \<open>1\<close>: the
  size converts to the \<^verbatim>\<open>float\<close> \<open>16777220\<close>, so the device range \<open>[0, 16777220)\<close> runs
  past the array and the union of the two ranges is not \<open>[0, N)\<close>.
\<close>

theorem partition_overrun_counterexample:
  "device_range 16777219 (Fin 1) = Some (0, 16777220)
   \<and> cpu_range 16777219 (Fin 1) = Some (16777220, 16777219)
   \<and> range_set (0, 16777220) \<union> range_set (16777220, 16777219) \<noteq> {0..<16777219}"
proof -
  have "(16777219::nat) \<in> range_set (0, 16777220)" by (simp add: range_set_def)
  then have "range_set (0, 16777220) \<union> range_set (16777220, 16777219) \<noteq> {0..<16777219::nat}"
    by auto
  then show ?thesis
    by (simp add: device_range_def cpu_range_def i_start_eq i_end_def split_16777219)
qed

lemma rnd32_of_nat_2_63: "N \<le> 2 ^ 63 \<Longrightarrow> rnd32 (of_nat N) < 2 ^ 64"
proof -
  assume "N \<le> 2 ^ 63"
  then have "(of_nat N :: rat) \<le> 2 ^ 63" by (simp only: of_nat_le_numeral_power_cancel_iff)
  then have "rnd32 (of_nat N) \<le> rnd32 (2 ^ 63)" by (rule rnd32_mono)
  moreover have "rnd32 (2 ^ 63) = 2 ^ 63" by code_simp
  ultimately show ?thesis by simp
qed

lemma rnd32_of_size_le: "N < 2 ^ 64 \<Longrightarrow> rnd32 (of_nat N) \<le> 2 ^ 64"
proof -
  assume "N < 2 ^ 64"
  then have "(of_nat N :: rat) \<le> 2 ^ 64" by (simp only: of_nat_le_numeral_power_cancel_iff)
  then have "rnd32 (of_nat N) \<le> rnd32 (2 ^ 64)" by (rule rnd32_mono)
  then show ?thesis by (simp only: rnd32_2_64)
qed

text \<open>
  Claim C8. For every size \<open>N\<close> of type \<^verbatim>\<open>size_t\<close> and ratios \<open>r1 \<le> r2\<close> in \<open>[0, 1]\<close>:
  whenever the device range exists for \<open>r2\<close>, it exists for \<open>r1\<close> and is not longer; and
  it exists for \<open>r2\<close> whenever \<open>N\<close> converts to a \<^verbatim>\<open>float\<close> below \<open>2\<^sup>6\<^sup>4\<close> (all \<open>N\<close> up
  to \<open>2\<^sup>6\<^sup>3\<close> do, see \<open>rnd32_of_nat_2_63\<close>). Increasing the ratio never decreases the length
  of the device range.
\<close>

theorem device_range_monotone:
  assumes "N < 2 ^ 64" and "0 \<le> r1" and "r1 \<le> r2" and "r2 \<le> 1"
  shows "(\<forall>d2. device_range N (Fin r2) = Some d2 \<longrightarrow>
            (\<exists>d1. device_range N (Fin r1) = Some d1 \<and> range_length d1 \<le> range_length d2))
         \<and> (rnd32 (of_nat N) < 2 ^ 64 \<longrightarrow> device_range N (Fin r2) \<noteq> None)"
proof -
  let ?F = "rnd32 (of_nat N)"
  let ?p1 = "rnd32 (?F * r1)" and ?p2 = "rnd32 (?F * r2)"
  have F: "?F \<le> 2 ^ 64" using assms(1) by (rule rnd32_of_size_le)
  have r1: "r1 \<le> 1" using assms by linarith
  have r2: "0 \<le> r2" using assms by linarith
  have F0: "0 \<le> ?F" by (simp add: rnd32_nonneg)
  have "?F * r1 \<le> ?F * r2" using F0 assms(3) by (rule mult_left_mono[rotated])
  then have "?p1 \<le> ?p2" by (rule rnd32_mono)
  then have c: "\<lceil>?p1\<rceil> \<le> \<lceil>?p2\<rceil>" by (rule ceiling_mono)
  have s1: "array_size_sycl N (Fin r1) =
      (if of_int \<lceil>?p1\<rceil> < (2::rat) ^ 64 then Some (nat \<lceil>?p1\<rceil>) else None)"
    using F assms(2) r1 by (rule split_formula)
  have s2: "array_size_sycl N (Fin r2) =
      (if of_int \<lceil>?p2\<rceil> < (2::rat) ^ 64 then Some (nat \<lceil>?p2\<rceil>) else None)"
    using F r2 assms(4) by (rule split_formula)
  have "\<exists>d1. device_range N (Fin r1) = Some d1 \<and> range_length d1 \<le> range_length d2"
    if "device_range N (Fin r2) = Some d2" for d2
  proof -
    from that have lt: "of_int \<lceil>?p2\<rceil> < (2::rat) ^ 64" and d2: "d2 = (0, nat \<lceil>?p2\<rceil>)"
      by (auto simp: device_range_def s2 split: if_splits)
    have "(of_int \<lceil>?p1\<rceil> :: rat) \<le> of_int \<lceil>?p2\<rceil>" using c by (simp only: of_int_le_iff)
    then have "of_int \<lceil>?p1\<rceil> < (2::rat) ^ 64" using lt by linarith
    then have "device_range N (Fin r1) = Some (0, nat \<lceil>?p1\<rceil>)"
      by (simp add: device_range_def s1)
    moreover have "nat \<lceil>?p1\<rceil> \<le> nat \<lceil>?p2\<rceil>" using c by (rule nat_mono)
    ultimately show ?thesis by (simp add: d2 range_length_def)
  qed
  moreover have "device_range N (Fin r2) \<noteq> None" if "?F < 2 ^ 64"
    using split_value(1)[OF that r2 assms(4)] by (simp add: device_range_def)
  ultimately show ?thesis by blast
qed

lemma rnd32_4: "rnd32 4 = 4"
  by code_simp
lemma rnd32_8: "rnd32 8 = 8"
  by code_simp
lemma rnd32_16: "rnd32 16 = 16"
  by code_simp

lemma split_16_half: "array_size_sycl 16 (Fin (1 / 2)) = Some 8"
  by (simp add: array_size_sycl_def f32_of_size_def to_f32_def rnd32_16 rnd32_8 flt_max_def)

lemma split_16_quarter: "array_size_sycl 16 (Fin (1 / 4)) = Some 4"
  by (simp add: array_size_sycl_def f32_of_size_def to_f32_def rnd32_16 rnd32_4 flt_max_def)

text \<open>The theorem at the program's size, for the ratios \<open>1/4\<close> and \<open>1/2\<close>.\<close>

theorem device_range_monotone_witness:
  "(16::nat) < 2 ^ 64 \<and> (0::rat) \<le> 1 / 4 \<and> (1 / 4 :: rat) \<le> 1 / 2 \<and> (1 / 2 :: rat) \<le> 1
   \<and> device_range 16 (Fin (1 / 4)) = Some (0, 4) \<and> device_range 16 (Fin (1 / 2)) = Some (0, 8)
   \<and> range_length (0, 4) \<le> range_length (0, 8)"
proof -
  have h1: "(16::nat) < 2 ^ 64" by simp
  have h2: "(0::rat) \<le> 1 / 4" and h3: "(1 / 4 :: rat) \<le> 1 / 2" and h4: "(1 / 2 :: rat) \<le> 1"
    by simp_all
  have d2: "device_range 16 (Fin (1 / 2)) = Some (0, 8)"
    by (simp add: device_range_def split_16_half)
  have d1: "device_range 16 (Fin (1 / 4)) = Some (0, 4)"
    by (simp add: device_range_def split_16_quarter)
  from device_range_monotone[OF h1 h2 h3 h4] d2
  have "\<exists>d1. device_range 16 (Fin (1 / 4)) = Some d1 \<and> range_length d1 \<le> range_length (0, 8)"
    by blast
  then have "range_length (0, 4) \<le> range_length (0, 8)" by (simp add: d1)
  then show ?thesis using h1 h2 h3 h4 d1 d2 by blast
qed

section \<open>Properties of the kernels\<close>

lemma exec_write_inputs:
  "a_array (exec_write e st) = a_array st \<and> b_array (exec_write e st) = b_array st"
proof -
  obtain p i where "e = (p, i)" by (cases e)
  then show ?thesis by (cases p) (simp_all add: kernel_body_def cpu_body_def)
qed

lemma run_schedule_inputs:
  "a_array (run_schedule es st) = a_array st \<and> b_array (run_schedule es st) = b_array st"
  unfolding run_schedule_def
  by (induction es arbitrary: st) (simp_all add: exec_write_inputs)

lemma exec_write_swap:
  assumes "snd e \<noteq> snd e'"
  shows "exec_write e (exec_write e' st) = exec_write e' (exec_write e st)"
proof -
  obtain p i q j where e: "e = (p, i)" "e' = (q, j)" by (cases e, cases e')
  then have ne: "i \<noteq> j" using assms by simp
  show ?thesis
    unfolding e
    by (cases p; cases q)
      (simp_all add: kernel_body_def cpu_body_def device_value_def cpu_value_def
        list_update_swap[OF ne])
qed

lemma writes_indices:
  assumes "writes N r = Inr ws"
  shows "map snd ws = [0..<N]"
proof -
  from assms obtain n where n: "array_size_sycl N r = Some n" "n \<le> N"
    and ws: "ws = map (Pair Device) [0..<n] @ map (Pair Cpu) [n..<N]"
    by (auto simp: writes_def device_indices_def cpu_indices_def i_start_eq i_end_def
        split: option.splits if_splits sum.splits)
  have "map snd ws = [0..<n] @ [n..<N]" by (simp add: ws comp_def)
  also have "\<dots> = [0..<N]" using n(2) by (metis le_add_diff_inverse upt_add_eq_append zero_le)
  finally show ?thesis .
qed

lemma writes_commute:
  assumes "writes N r = Inr ws" and "x \<in> set ws" and "y \<in> set ws"
  shows "exec_write x \<circ> exec_write y = exec_write y \<circ> exec_write x"
proof (cases "x = y")
  case True
  then show ?thesis by simp
next
  case False
  have "distinct (map snd ws)" by (simp add: writes_indices[OF assms(1)])
  then have "inj_on snd (set ws)" by (simp add: distinct_map)
  then have "snd x \<noteq> snd y" using False assms(2,3) by (auto dest: inj_onD)
  then show ?thesis by (auto simp: fun_eq_iff exec_write_swap)
qed

lemma schedule_canonical:
  assumes "schedule N r es" and "writes N r = Inr ws"
  shows "run_schedule es st = run_schedule ws st"
proof -
  have m: "mset ws = mset es" using assms by (simp add: schedule_def)
  have "fold exec_write ws = fold exec_write es"
    using writes_commute[OF assms(2)] m by (rule fold_multiset_equiv)
  then show ?thesis by (simp add: run_schedule_def)
qed

subsection \<open>Values that need no rounding\<close>

lemma rnd_mag_dyadic:
  assumes "x * 2 ^ 149 = of_int (k * 2 ^ e)" and "k < 2 ^ 24"
  shows "rnd_mag x = x"
proof -
  have fl: "\<lfloor>x * 2 ^ 149\<rfloor> = k * 2 ^ e" by (simp only: assms(1) floor_of_int)
  have "k * 2 ^ e < 2 ^ 24 * 2 ^ e" using assms(2) by simp
  then have "k * 2 ^ e < 2 ^ (24 + e)" by (simp only: power_add)
  then have "bit_length (k * 2 ^ e) \<le> 24 + e" by (rule bit_length_le)
  then have s: "ulp_shift x \<le> e" unfolding ulp_shift_def fl by simp
  have pe: "(2::rat) ^ e = 2 ^ (e - ulp_shift x) * 2 ^ ulp_shift x"
    using s by (simp add: power_add[symmetric])
  have "x * 2 ^ 149 = of_int k * (2::rat) ^ e" by (simp only: assms(1)) simp
  also have "\<dots> = of_int k * (2 ^ (e - ulp_shift x) * 2 ^ ulp_shift x)" by (subst pe) simp
  also have "\<dots> = of_int (k * 2 ^ (e - ulp_shift x)) * 2 ^ ulp_shift x" by simp
  finally show ?thesis by (rule rnd_mag_exact)
qed

lemma rnd32_halves:
  assumes "k < 2 ^ 24"
  shows "rnd32 (of_nat k / 2) = of_nat k / 2"
proof -
  have "(of_nat k / 2 :: rat) * 2 ^ 149 = of_nat k * 2 ^ 148" by simp
  also have "\<dots> = of_int (int k * 2 ^ 148)" by simp
  finally have "(of_nat k / 2 :: rat) * 2 ^ 149 = of_int (int k * 2 ^ 148)" .
  moreover have "int k < 2 ^ 24" using assms by simp
  ultimately have "rnd_mag (of_nat k / 2) = of_nat k / 2" by (rule rnd_mag_dyadic)
  then show ?thesis by (simp add: rnd32_def)
qed

lemma to_f32_halves:
  assumes "k < 2 ^ 24"
  shows "to_f32 (of_nat k / 2) = Fin (of_nat k / 2)"
proof -
  have "(of_nat k :: rat) \<le> 2 ^ 24" using assms by (simp only: of_nat_le_numeral_power_cancel_iff)
  then have "(of_nat k / 2 :: rat) \<le> 2 ^ 64" by simp
  then show ?thesis by (simp add: to_f32_Fin rnd32_halves[OF assms])
qed

lemma f32_of_int_small: "i < 2 ^ 23 \<Longrightarrow> f32_of_int (int i) = Fin (of_nat i)"
  using to_f32_halves[of "2 * i"] by (simp add: f32_of_int_def)

subsection \<open>The result of a run\<close>

lemma fmul_commute: "fmul x y = fmul y x"
  by (cases x; cases y) (simp_all add: mult.commute)

lemma cpu_value_device: "cpu_value st i = device_value alpha st i"
  by (simp add: cpu_value_def device_value_def fmul_commute)

lemma exec_write_c:
  "c_array (exec_write e st) = (c_array st)[snd e := cpu_value st (snd e)]"
proof -
  obtain p i where "e = (p, i)" by (cases e)
  then show ?thesis by (cases p) (simp_all add: kernel_body_def cpu_body_def cpu_value_device)
qed

lemma exec_write_cpu_value: "cpu_value (exec_write e st) i = cpu_value st i"
  by (simp add: cpu_value_def exec_write_inputs)

lemma fold_exec_length: "length (c_array (fold exec_write es st)) = length (c_array st)"
  by (induction es arbitrary: st) (simp_all add: exec_write_c)

lemma fold_exec_nth:
  assumes "i < length (c_array st)"
  shows "c_array (fold exec_write es st) ! i =
           (if i \<in> snd ` set es then cpu_value st i else c_array st ! i)"
  using assms
proof (induction es arbitrary: st)
  case Nil
  then show ?case by simp
next
  case (Cons e es)
  have len: "i < length (c_array (exec_write e st))" using Cons.prems by (simp add: exec_write_c)
  show ?case
    using Cons.IH[OF len] Cons.prems
    by (auto simp: exec_write_cpu_value exec_write_c)
qed

lemma run_schedule_gold:
  assumes "schedule N r es" and "length (c_array st) = N"
  shows "c_array (run_schedule es st) = c_gold N st"
proof -
  from assms(1) obtain ws where ws: "writes N r = Inr ws" and m: "mset es = mset ws"
    by (auto simp: schedule_def split: sum.splits)
  have "set es = set ws" using m by (rule mset_eq_setD)
  then have "snd ` set es = set (map snd ws)" by simp
  then have idx: "snd ` set es = {0..<N}" by (simp only: writes_indices[OF ws]) simp
  show ?thesis
  proof (rule nth_equalityI)
    show "length (c_array (run_schedule es st)) = length (c_gold N st)"
      by (simp add: run_schedule_def fold_exec_length assms(2) c_gold_def)
  next
    fix i assume "i < length (c_array (run_schedule es st))"
    then have i: "i < N" by (simp add: run_schedule_def fold_exec_length assms(2))
    then show "c_array (run_schedule es st) ! i = c_gold N st ! i"
      using fold_exec_nth[of i st es] assms(2)
      by (simp add: run_schedule_def idx c_gold_def cpu_value_def)
  qed
qed

lemma fold_init_body:
  "k \<le> N \<Longrightarrow> fold init_body [0..<k] (globals N) =
     \<lparr>a_array = map (\<lambda>i. f32_of_int (int i)) [0..<k] @ replicate (N - k) (Fin 0),
      b_array = map (\<lambda>i. f32_of_int (int i)) [0..<k] @ replicate (N - k) (Fin 0),
      c_array = replicate N (Fin 0)\<rparr>"
proof (induction k)
  case 0
  then show ?case by (simp add: globals_def)
next
  case (Suc k)
  then have "N - k = Suc (N - Suc k)" by simp
  then show ?case using Suc by (simp add: init_body_def list_update_append)
qed

lemma init_arrays_eq:
  "init_arrays N =
     \<lparr>a_array = map (\<lambda>i. f32_of_int (int i)) [0..<N],
      b_array = map (\<lambda>i. f32_of_int (int i)) [0..<N],
      c_array = replicate N (Fin 0)\<rparr>"
  by (simp add: init_arrays_def fold_init_body)

lemma seed_values:
  assumes "N \<le> 2 ^ 23"
  shows "map (\<lambda>i. f32_of_int (int i)) [0..<N] = map (\<lambda>i. Fin (of_nat i)) [0..<N]"
  using assms by (simp add: f32_of_int_small)

lemma gold_values:
  assumes "N \<le> 2 ^ 22"
  shows "c_gold N (init_arrays N) = map (\<lambda>i. Fin (of_nat i + 1 / 2 * of_nat i)) [0..<N]"
proof -
  have "fadd (f32_of_int (int i)) (fmul alpha (f32_of_int (int i))) = Fin (of_nat i + 1 / 2 * of_nat i)"
    if "i < N" for i
  proof -
    have i: "i < 2 ^ 22" using that assms by simp
    then have a: "f32_of_int (int i) = Fin (of_nat i)" by (simp add: f32_of_int_small)
    have "fmul alpha (Fin (of_nat i)) = Fin (of_nat i / 2)"
      using to_f32_halves[of i] i by (simp add: alpha_def)
    moreover have "fadd (Fin (of_nat i)) (Fin (of_nat i / 2)) = Fin (of_nat (3 * i) / 2)"
    proof -
      have "(of_nat i :: rat) + of_nat i / 2 = of_nat (3 * i) / 2" by simp
      then show ?thesis using to_f32_halves[of "3 * i"] i by simp
    qed
    ultimately show ?thesis by (simp add: a)
  qed
  then show ?thesis by (simp add: c_gold_def init_arrays_eq)
qed

section \<open>The run of the program\<close>


lemma writes_program:
  "writes array_size ratio = Inr (map (Pair Device) [0..<8] @ map (Pair Cpu) [8..<16])"
  by (simp add: writes_def device_indices_def cpu_indices_def i_start_eq i_end_def array_size_def
      ratio_def split_16_half)

lemma length_init_arrays: "length (c_array (init_arrays N)) = N"
  by (simp add: init_arrays_eq)

lemma gold_run: "c_gold N (run_schedule es st) = c_gold N st"
  by (simp add: c_gold_def run_schedule_inputs)

lemma out_node_finite:
  assumes "c_array st = c_gold N st" and "c_gold N st = map (\<lambda>i. Fin (g i)) xs"
  shows "out_node N st = ''Heterogenous triad correct.''"
proof -
  have "list_all2 feq (map (\<lambda>i. Fin (g i)) xs) (map (\<lambda>i. Fin (g i)) xs)"
    by (simp add: list_all2_map1 list_all2_map2 list_all2_same feq_def)
  then show ?thesis by (simp add: out_node_def assms)
qed

lemma program_run:
  assumes "schedule array_size r es"
  shows "c_array (run_schedule es (init_arrays array_size))
           = map (\<lambda>i. Fin (of_nat i + 1 / 2 * of_nat i)) [0..<16]"
    and "out_node array_size (run_schedule es (init_arrays array_size))
           = ''Heterogenous triad correct.''"
proof -
  let ?st = "run_schedule es (init_arrays array_size)"
  have c: "c_array ?st = c_gold array_size (init_arrays array_size)"
    using assms length_init_arrays by (rule run_schedule_gold)
  have g: "c_gold array_size (init_arrays array_size)
      = map (\<lambda>i. Fin (of_nat i + 1 / 2 * of_nat i)) [0..<array_size]"
    by (rule gold_values) (simp add: array_size_def)
  show "c_array ?st = map (\<lambda>i. Fin (of_nat i + 1 / 2 * of_nat i)) [0..<16]"
    using c g by (simp add: array_size_def)
  show "out_node array_size ?st = ''Heterogenous triad correct.''"
    using c g by (intro out_node_finite[where g = "\<lambda>i. of_nat i + 1 / 2 * of_nat i"])
      (simp_all only: gold_run)
qed

text \<open>
  Claim C2. With the program's configuration (\<open>A[i] = B[i] = i\<close>, \<open>alpha = 0.5\<close>, 16
  elements, ratio \<open>0.5\<close>) the device writes the indices \<open>[0, 8)\<close> and the CPU the
  indices \<open>[8, 16)\<close>. Whatever the order in which these writes take effect, afterwards
  \<open>C[i] = A[i] + 0.5 * B[i]\<close> at every index, in particular \<open>C[4] = 6\<close> and
  \<open>C[15] = 22.5\<close>; the device's formula and the CPU's give the same value at every
  index; the serial recomputation of \<^verbatim>\<open>out_node\<close> equals the merged result, and
  \<^verbatim>\<open>out_node\<close> reports the triad as correct.
\<close>

theorem end_to_end_triad:
  assumes "schedule array_size ratio es"
  shows "writes array_size ratio = Inr (map (Pair Device) [0..<8] @ map (Pair Cpu) [8..<16])
         \<and> c_array (run_schedule es (init_arrays array_size))
             = map (\<lambda>i. Fin (of_nat i + 1 / 2 * of_nat i)) [0..<16]
         \<and> c_array (run_schedule es (init_arrays array_size)) ! 4 = Fin 6
         \<and> c_array (run_schedule es (init_arrays array_size)) ! 15 = Fin (45 / 2)
         \<and> map (device_value alpha (init_arrays array_size)) [0..<16]
             = map (cpu_value (init_arrays array_size)) [0..<16]
         \<and> c_array (run_schedule es (init_arrays array_size))
             = c_gold array_size (run_schedule es (init_arrays array_size))
         \<and> out_node array_size (run_schedule es (init_arrays array_size))
             = ''Heterogenous triad correct.''"
proof -
  let ?st = "run_schedule es (init_arrays array_size)"
  have c: "c_array ?st = map (\<lambda>i. Fin (of_nat i + 1 / 2 * of_nat i)) [0..<16]"
    using assms by (rule program_run)
  have "c_array ?st ! 4 = Fin 6" and "c_array ?st ! 15 = Fin (45 / 2)"
    by (simp_all add: c)
  moreover have "c_array ?st = c_gold array_size ?st"
    using run_schedule_gold[OF assms length_init_arrays] by (simp add: gold_run)
  moreover have "map (device_value alpha (init_arrays array_size)) [0..<16]
      = map (cpu_value (init_arrays array_size)) [0..<16]"
    by (simp add: cpu_value_device)
  ultimately show ?thesis using c writes_program program_run(2)[OF assms] by simp
qed

lemma schedule_rev: "schedule N r es \<Longrightarrow> schedule N r (rev es)"
  by (simp add: schedule_def split: sum.splits)

lemma schedule_program:
  "schedule array_size ratio (map (Pair Device) [0..<8] @ map (Pair Cpu) [8..<16])"
  by (simp add: schedule_def writes_program)

text \<open>The theorem for the schedule that runs all writes in reverse order.\<close>

theorem end_to_end_triad_witness:
  "schedule array_size ratio (rev (map (Pair Device) [0..<8] @ map (Pair Cpu) [8..<16]))
   \<and> c_array (run_schedule (rev (map (Pair Device) [0..<8] @ map (Pair Cpu) [8..<16]))
        (init_arrays array_size)) ! 4 = Fin 6
   \<and> c_array (run_schedule (rev (map (Pair Device) [0..<8] @ map (Pair Cpu) [8..<16]))
        (init_arrays array_size)) ! 15 = Fin (45 / 2)
   \<and> out_node array_size (run_schedule (rev (map (Pair Device) [0..<8] @ map (Pair Cpu) [8..<16]))
        (init_arrays array_size)) = ''Heterogenous triad correct.''"
proof -
  have h: "schedule array_size ratio (rev (map (Pair Device) [0..<8] @ map (Pair Cpu) [8..<16]))"
    using schedule_program by (rule schedule_rev)
  from end_to_end_triad[OF h] h show ?thesis by blast
qed

text \<open>
  Claim C9. Two runs from the same arrays (of \<open>N\<close> elements each), with the same ratio,
  end in the same arrays, whatever the two orders in which the writes of the two engines
  take effect: every index of \<open>[0, N)\<close> is written exactly once, by one engine.
\<close>

theorem schedules_agree:
  assumes "well_formed N st" and "schedule N r es1" and "schedule N r es2"
  shows "run_schedule es1 st = run_schedule es2 st
         \<and> (\<exists>ws. writes N r = Inr ws \<and> map snd ws = [0..<N])"
proof -
  from assms(2) obtain ws where ws: "writes N r = Inr ws"
    by (auto simp: schedule_def split: sum.splits)
  have "run_schedule es1 st = run_schedule es2 st"
    by (simp add: schedule_canonical[OF assms(2) ws] schedule_canonical[OF assms(3) ws])
  then show ?thesis using ws writes_indices[OF ws] by blast
qed

text \<open>The theorem for the program, with the writes in order and in reverse order.\<close>

theorem schedules_agree_witness:
  "well_formed array_size (init_arrays array_size)
   \<and> schedule array_size ratio (map (Pair Device) [0..<8] @ map (Pair Cpu) [8..<16])
   \<and> schedule array_size ratio (rev (map (Pair Device) [0..<8] @ map (Pair Cpu) [8..<16]))
   \<and> run_schedule (map (Pair Device) [0..<8] @ map (Pair Cpu) [8..<16]) (init_arrays array_size)
       = run_schedule (rev (map (Pair Device) [0..<8] @ map (Pair Cpu) [8..<16]))
           (init_arrays array_size)"
proof -
  have h1: "schedule array_size ratio (map (Pair Device) [0..<8] @ map (Pair Cpu) [8..<16])"
    by (rule schedule_program)
  have h2: "schedule array_size ratio (rev (map (Pair Device) [0..<8] @ map (Pair Cpu) [8..<16]))"
    using h1 by (rule schedule_rev)
  have h0: "well_formed array_size (init_arrays array_size)"
    by (simp add: well_formed_def init_arrays_eq)
  from schedules_agree[OF h0 h1 h2] h0 h1 h2 show ?thesis by blast
qed

text \<open>
  Claim C10. No write of either engine changes \<^verbatim>\<open>a_array\<close> or \<^verbatim>\<open>b_array\<close>: after any
  sequence of kernel writes both hold what they held before, and after a run of the
  program they still hold their seed values \<open>a[i] = b[i] = i\<close>. Only \<^verbatim>\<open>c_array\<close> is
  written.
\<close>

theorem inputs_unchanged:
  "a_array (run_schedule es st) = a_array st
   \<and> b_array (run_schedule es st) = b_array st
   \<and> a_array (run_schedule es (init_arrays array_size)) = map (\<lambda>i. Fin (of_nat i)) [0..<16]
   \<and> b_array (run_schedule es (init_arrays array_size)) = map (\<lambda>i. Fin (of_nat i)) [0..<16]"
proof -
  have "map (\<lambda>i. f32_of_int (int i)) [0..<16] = map (\<lambda>i. Fin (of_nat i)) [0..<16]"
    by (rule seed_values) simp
  then show ?thesis by (simp add: run_schedule_inputs init_arrays_eq array_size_def)
qed













section \<open>Properties of the source node\<close>

lemma invocations_after_first: "invocations k True slot = replicate k False"
  by (induction k) (simp_all add: in_node_def)

lemma source_node_run_once: "source_node_run False slot [] = (True, [ratio])"
  by (simp add: in_node_def)

text \<open>
  Claim C5. The source emits the ratio exactly once per run. The first invocation of
  the body produces \<open>ratio\<close> and sets the guard flag; every later invocation produces
  nothing, whatever their number; the activated node therefore emits the one-element
  sequence \<open>[ratio]\<close>, and the asynchronous node and the CPU node, the two successors of
  the source, each receive exactly that one input.
\<close>

theorem source_emits_ratio_once:
  "in_node False slot = (True, ratio, True)
   \<and> invocations (Suc k) False slot = True # replicate k False
   \<and> source_node_run False slot [] = (True, [ratio])
   \<and> successors In_node = [A_node, Cpu_node]
   \<and> received_from_source slot A_node = [ratio]
   \<and> received_from_source slot Cpu_node = [ratio]"
  by (simp add: invocations_after_first source_node_run_once received_from_source_def
      successors_def edges_def in_node_def)

section \<open>Properties of the flow graph\<close>

lemma successors_simps:
  "successors In_node = [A_node, Cpu_node]"
  "successors A_node = [Join_port0]"
  "successors Cpu_node = [Join_port1]"
  "successors Node_join = [Out_node]"
  by (simp_all add: successors_def edges_def)

lemma length_remove_nth: "k < length xs \<Longrightarrow> Suc (length (remove_nth k xs)) = length xs"
  by (simp add: remove_nth_def) 

lemma mset_remove_nth:
  "k < length xs \<Longrightarrow> mset (map f xs) = add_mset (f (xs ! k)) (mset (map f (remove_nth k xs)))"
proof -
  assume k: "k < length xs"
  then have "xs = take k xs @ xs ! k # drop (Suc k) xs" by (rule id_take_nth_drop)
  then have "mset (map f xs) = mset (map f (take k xs @ xs ! k # drop (Suc k) xs))" by simp
  then show ?thesis by (simp add: remove_nth_def)
qed

lemma list_all_remove_nth: "list_all P xs \<Longrightarrow> list_all P (remove_nth k xs)"
  by (auto simp: remove_nth_def list_all_iff dest: in_set_takeD in_set_dropD)

lemma list_all_nth: "list_all P xs \<Longrightarrow> k < length xs \<Longrightarrow> P (xs ! k)"
  by (simp add: list_all_length)

subsection \<open>The effect of each action\<close>

lemma exec_ActivateE:
  assumes "exec Activate s = Some s'"
  shows "main_thread s = Before_activate"
    and "s' = s\<lparr>source_active := True, main_thread := Waiting\<rparr>"
  using assms by (simp_all split: if_splits)

lemma exec_Source_bodyE:
  assumes "exec Source_body s = Some s'"
  shows "source_active s"
    and "flag_n s \<Longrightarrow> s' = s\<lparr>flag_n := True, source_active := False\<rparr>"
    and "\<not> flag_n s \<Longrightarrow>
           s' = s\<lparr>flag_n := True, cached_item := ratio, emitted := Suc (emitted s),
                   a_node_tasks := a_node_tasks s @ [(emitted s, ratio)],
                   cpu_node_tasks := cpu_node_tasks s @ [(emitted s, ratio)]\<rparr>"
  using assms by (simp_all add: in_node_def successors_simps split: if_splits)

lemma exec_A_reserveE:
  assumes "exec (A_reserve k) s = Some s'"
  shows "k < length (a_node_tasks s)"
    and "s' = s\<lparr>a_node_tasks := remove_nth k (a_node_tasks s),
                 a_node_reserved := a_node_reserved s @ [a_node_tasks s ! k],
                 reserved := Suc (reserved s),
                 reserve_calls := Suc (reserve_calls s)\<rparr>"
  using assms by (simp_all split: if_splits)

lemma exec_A_enqueueE:
  assumes "exec (A_enqueue k) s = Some s'"
  shows "k < length (a_node_reserved s)"
    and "s' = s\<lparr>a_node_reserved := remove_nth k (a_node_reserved s),
                 arena_queue := arena_queue s @ [a_node_reserved s ! k],
                 enqueue_calls := Suc (enqueue_calls s)\<rparr>"
  using assms by (simp_all split: if_splits)

lemma exec_Arena_startE:
  assumes "exec Arena_start s = Some s'"
  obtains m q where "arena_queue s = m # q" and "arena_running s = None"
    and "s' = s\<lparr>arena_queue := q, arena_running := Some (m, Kernel_pending)\<rparr>"
  using assms by (auto split: list.splits if_splits)

lemma exec_Arena_kernelE:
  assumes "exec Arena_kernel s = Some s'"
  obtains m where "arena_running s = Some (m, Kernel_pending)"
    and "s' = s\<lparr>arena_running := Some (m, Kernel_done)\<rparr>"
  using assms by (auto split: option.splits if_splits)

lemma exec_Arena_putE:
  assumes "exec Arena_put s = Some s'"
  obtains m where "arena_running s = Some (m, Kernel_done)"
    and "s' = s\<lparr>arena_running := Some (m, Put_done),
                 try_put_calls := Suc (try_put_calls s),
                 port0 := port0 s @ [(fst m, sycl_result)]\<rparr>"
  using assms by (auto simp: successors_simps split: option.splits if_splits)

lemma exec_Arena_releaseE:
  assumes "exec Arena_release s = Some s'"
  obtains m where "arena_running s = Some (m, Put_done)"
    and "s' = s\<lparr>arena_running := None, reserved := reserved s - 1,
                 release_calls := Suc (release_calls s)\<rparr>"
  using assms by (auto split: option.splits if_splits)

lemma exec_Cpu_bodyE:
  assumes "exec (Cpu_body k) s = Some s'"
  shows "k < length (cpu_node_tasks s)"
    and "s' = s\<lparr>cpu_node_tasks := remove_nth k (cpu_node_tasks s),
                 port1 := port1 s @ [(fst (cpu_node_tasks s ! k), tbb_result)]\<rparr>"
  using assms by (simp_all add: successors_simps split: if_splits)

lemma exec_Join_forwardE:
  assumes "exec Join_forward s = Some s'"
  obtains t0 p0 t1 p1 where "port0 s = t0 # p0" and "port1 s = t1 # p1"
    and "s' = s\<lparr>port0 := p0, port1 := p1, out_node_tasks := out_node_tasks s @ [(t0, t1)]\<rparr>"
  using assms by (auto simp: successors_simps split: list.splits)

lemma exec_Out_bodyE:
  assumes "exec (Out_body k) s = Some s'"
  shows "k < length (out_node_tasks s)"
    and "s' = s\<lparr>out_node_tasks := remove_nth k (out_node_tasks s),
                 consumed := consumed s @ [out_node_tasks s ! k]\<rparr>"
  using assms by (simp_all split: if_splits)

lemma exec_Wait_returnE:
  assumes "exec Wait_return s = Some s'"
  shows "main_thread s = Waiting" and "idle s" and "reserved s = 0"
    and "s' = s\<lparr>main_thread := Returned\<rparr>"
  using assms by (simp_all split: if_splits)

subsection \<open>The invariants hold in every state a run can reach\<close>

lemma inv_initial:
  "inv_counters (initial v0)" "inv_tags (initial v0)" "inv_source (initial v0)"
  "inv_values (initial v0)" "inv_returned (initial v0)"
  by (simp_all add: inv_counters_def inv_tags_def inv_source_def inv_values_def inv_returned_def
      initial_def pending_lambdas_def put_not_released_def device_pending_def device_tokens_def
      cpu_pending_def cpu_tokens_def)

lemmas counter_defs = inv_counters_def pending_lambdas_def put_not_released_def

lemma exec_cases [consumes 1, case_names Activate Emit Stop A_reserve A_enqueue Arena_start
    Arena_kernel Arena_put Arena_release Cpu_body Join_forward Out_body Wait_return]:
  assumes "exec a s = Some s'"
  obtains
    "a = Activate" and "main_thread s = Before_activate"
      and "s' = s\<lparr>source_active := True, main_thread := Waiting\<rparr>"
  | "a = Source_body" and "source_active s" and "\<not> flag_n s"
      and "s' = s\<lparr>flag_n := True, cached_item := ratio, emitted := Suc (emitted s),
                   a_node_tasks := a_node_tasks s @ [(emitted s, ratio)],
                   cpu_node_tasks := cpu_node_tasks s @ [(emitted s, ratio)]\<rparr>"
  | "a = Source_body" and "source_active s" and "flag_n s"
      and "s' = s\<lparr>flag_n := True, source_active := False\<rparr>"
  | k where "a = A_reserve k" and "k < length (a_node_tasks s)"
      and "s' = s\<lparr>a_node_tasks := remove_nth k (a_node_tasks s),
                   a_node_reserved := a_node_reserved s @ [a_node_tasks s ! k],
                   reserved := Suc (reserved s),
                   reserve_calls := Suc (reserve_calls s)\<rparr>"
  | k where "a = A_enqueue k" and "k < length (a_node_reserved s)"
      and "s' = s\<lparr>a_node_reserved := remove_nth k (a_node_reserved s),
                   arena_queue := arena_queue s @ [a_node_reserved s ! k],
                   enqueue_calls := Suc (enqueue_calls s)\<rparr>"
  | m q where "a = Arena_start" and "arena_queue s = m # q" and "arena_running s = None"
      and "s' = s\<lparr>arena_queue := q, arena_running := Some (m, Kernel_pending)\<rparr>"
  | m where "a = Arena_kernel" and "arena_running s = Some (m, Kernel_pending)"
      and "s' = s\<lparr>arena_running := Some (m, Kernel_done)\<rparr>"
  | m where "a = Arena_put" and "arena_running s = Some (m, Kernel_done)"
      and "s' = s\<lparr>arena_running := Some (m, Put_done),
                   try_put_calls := Suc (try_put_calls s),
                   port0 := port0 s @ [(fst m, sycl_result)]\<rparr>"
  | m where "a = Arena_release" and "arena_running s = Some (m, Put_done)"
      and "s' = s\<lparr>arena_running := None, reserved := reserved s - 1,
                   release_calls := Suc (release_calls s)\<rparr>"
  | k where "a = Cpu_body k" and "k < length (cpu_node_tasks s)"
      and "s' = s\<lparr>cpu_node_tasks := remove_nth k (cpu_node_tasks s),
                   port1 := port1 s @ [(fst (cpu_node_tasks s ! k), tbb_result)]\<rparr>"
  | t0 p0 t1 p1 where "a = Join_forward" and "port0 s = t0 # p0" and "port1 s = t1 # p1"
      and "s' = s\<lparr>port0 := p0, port1 := p1,
                   out_node_tasks := out_node_tasks s @ [(t0, t1)]\<rparr>"
  | k where "a = Out_body k" and "k < length (out_node_tasks s)"
      and "s' = s\<lparr>out_node_tasks := remove_nth k (out_node_tasks s),
                   consumed := consumed s @ [out_node_tasks s ! k]\<rparr>"
  | "a = Wait_return" and "main_thread s = Waiting" and "idle s" and "reserved s = 0"
      and "s' = s\<lparr>main_thread := Returned\<rparr>"
proof (cases a)
  case Activate
  with assms have e: "exec Activate s = Some s'" by simp
  show ?thesis using that(1) Activate exec_ActivateE[OF e] by blast
next
  case Source_body
  with assms have e: "exec Source_body s = Some s'" by simp
  show ?thesis using that(2,3) Source_body exec_Source_bodyE[OF e] by blast
next
  case (A_reserve k)
  with assms have e: "exec (A_reserve k) s = Some s'" by simp
  show ?thesis using that(4) A_reserve exec_A_reserveE[OF e] by blast
next
  case (A_enqueue k)
  with assms have e: "exec (A_enqueue k) s = Some s'" by simp
  show ?thesis using that(5) A_enqueue exec_A_enqueueE[OF e] by blast
next
  case Arena_start
  with assms have e: "exec Arena_start s = Some s'" by simp
  from e show ?thesis by (rule exec_Arena_startE) (use that(6) Arena_start in blast)
next
  case Arena_kernel
  with assms have e: "exec Arena_kernel s = Some s'" by simp
  from e show ?thesis by (rule exec_Arena_kernelE) (use that(7) Arena_kernel in blast)
next
  case Arena_put
  with assms have e: "exec Arena_put s = Some s'" by simp
  from e show ?thesis by (rule exec_Arena_putE) (use that(8) Arena_put in blast)
next
  case Arena_release
  with assms have e: "exec Arena_release s = Some s'" by simp
  from e show ?thesis by (rule exec_Arena_releaseE) (use that(9) Arena_release in blast)
next
  case (Cpu_body k)
  with assms have e: "exec (Cpu_body k) s = Some s'" by simp
  show ?thesis using that(10) Cpu_body exec_Cpu_bodyE[OF e] by blast
next
  case Join_forward
  with assms have e: "exec Join_forward s = Some s'" by simp
  from e show ?thesis by (rule exec_Join_forwardE) (use that(11) Join_forward in blast)
next
  case (Out_body k)
  with assms have e: "exec (Out_body k) s = Some s'" by simp
  show ?thesis using that(12) Out_body exec_Out_bodyE[OF e] by blast
next
  case Wait_return
  with assms have e: "exec Wait_return s = Some s'" by simp
  show ?thesis using that(13) Wait_return exec_Wait_returnE[OF e] by blast
qed

lemma exec_counters:
  assumes "inv_counters s" and "exec a s = Some s'"
  shows "inv_counters s'"
  using assms(2)
proof (cases rule: exec_cases)
  case (A_reserve k)
  then show ?thesis using assms(1) length_remove_nth[of k "a_node_tasks s"]
    by (simp add: counter_defs)
next
  case (A_enqueue k)
  then show ?thesis using assms(1) length_remove_nth[of k "a_node_reserved s"]
    by (simp add: counter_defs)
next
  case (Out_body k)
  then show ?thesis using assms(1) length_remove_nth[of k "out_node_tasks s"]
    by (simp add: counter_defs)
next
  case Wait_return
  from Wait_return(5) show ?thesis using assms(1) by (simp add: counter_defs)
qed (use assms(1) in \<open>simp_all add: counter_defs\<close>)

lemmas tag_defs = inv_tags_def device_pending_def device_tokens_def cpu_pending_def cpu_tokens_def

lemma exec_tags:
  assumes "inv_tags s" and "exec a s = Some s'"
  shows "inv_tags s'"
  using assms(2)
proof (cases rule: exec_cases)
  case (A_reserve k)
  then show ?thesis using assms(1) mset_remove_nth[of k "a_node_tasks s" fst]
    by (simp add: tag_defs)
next
  case (A_enqueue k)
  then show ?thesis using assms(1) mset_remove_nth[of k "a_node_reserved s" fst]
    by (simp add: tag_defs)
next
  case (Cpu_body k)
  then show ?thesis using assms(1) mset_remove_nth[of k "cpu_node_tasks s" fst]
    by (simp add: tag_defs)
next
  case (Out_body k)
  then show ?thesis
    using assms(1) mset_remove_nth[of k "out_node_tasks s" "fst \<circ> fst"]
      mset_remove_nth[of k "out_node_tasks s" "fst \<circ> snd"]
    by (simp add: tag_defs)
qed (use assms(1) in \<open>simp_all add: tag_defs\<close>)

lemma exec_source:
  assumes "inv_source s" and "exec a s = Some s'"
  shows "inv_source s'"
  using assms(2)
  by (cases rule: exec_cases) (use assms(1) in \<open>simp_all add: inv_source_def\<close>)

lemma exec_values:
  assumes "inv_values s" and "exec a s = Some s'"
  shows "inv_values s'"
  using assms(2)
proof (cases rule: exec_cases)
  case (Out_body k)
  then show ?thesis
    using assms(1)
      list_all_remove_nth[of "\<lambda>p. snd (fst p) = sycl_result \<and> snd (snd p) = tbb_result"
        "out_node_tasks s" k]
      list_all_nth[of "\<lambda>p. snd (fst p) = sycl_result \<and> snd (snd p) = tbb_result"
        "out_node_tasks s" k]
    by (simp add: inv_values_def)
qed (use assms(1) in \<open>simp_all add: inv_values_def\<close>)

lemma returned_final:
  assumes "inv_counters s" and "main_thread s = Returned" and "idle s" and "reserved s = 0"
  shows "exec a s = None"
proof (cases "exec a s")
  case None
  then show ?thesis .
next
  case (Some s')
  then have False
    by (cases rule: exec_cases)
      (use assms in \<open>simp_all add: counter_defs idle_def\<close>)
  then show ?thesis ..
qed

lemma exec_returned:
  assumes "inv_counters s" and "inv_returned s" and "exec a s = Some s'"
  shows "inv_returned s'"
proof (cases "main_thread s = Returned")
  case True
  then show ?thesis using assms returned_final[of s a] by (simp add: inv_returned_def)
next
  case False
  show ?thesis
    using assms(3)
    by (cases rule: exec_cases) (use False in \<open>simp_all add: inv_returned_def idle_def\<close>)
qed

lemma run_invariant:
  assumes "invariant s" and "run as s = Some s'"
  shows "invariant s'"
  using assms
proof (induction as arbitrary: s)
  case Nil
  then show ?case by simp
next
  case (Cons a as)
  from Cons.prems(2) obtain t where t: "exec a s = Some t" and r: "run as t = Some s'"
    by (auto split: option.splits)
  from Cons.prems(1) have i: "inv_counters s" "inv_tags s" "inv_source s" "inv_values s"
    "inv_returned s"
    by (simp_all add: invariant_def)
  have "invariant t"
    unfolding invariant_def
    using exec_counters[OF i(1) t] exec_tags[OF i(2) t] exec_source[OF i(3) t]
      exec_values[OF i(4) t] exec_returned[OF i(1) i(5) t]
    by simp
  then show ?case using r by (rule Cons.IH)
qed

lemma reachable_invariant:
  assumes "run as (initial v0) = Some s"
  shows "invariant s"
proof -
  have "invariant (initial v0)" by (simp add: invariant_def inv_initial)
  then show ?thesis using assms by (rule run_invariant)
qed

subsection \<open>Consequences\<close>

lemma run_full_run: "run full_run (initial (Fin 0)) = Some final_state"
  by (simp add: full_run_def initial_def final_state_def in_node_def successors_simps
      remove_nth_def idle_def)

lemma tags_bounded:
  assumes "inv_tags s" and "inv_source s"
  shows "i \<in># device_pending s + device_tokens s \<Longrightarrow> i = 0"
    and "i \<in># cpu_pending s + cpu_tokens s \<Longrightarrow> i = 0"
proof -
  have e: "emitted s \<le> 1" using assms(2) by (simp add: inv_source_def)
  {
    assume "i \<in># device_pending s + device_tokens s"
    then have "i \<in># mset [0..<emitted s]" using assms(1) by (simp only: inv_tags_def)
    then have "i < emitted s" by simp
    then show "i = 0" using e by simp
  }
  {
    assume "i \<in># cpu_pending s + cpu_tokens s"
    then have "i \<in># mset [0..<emitted s]" using assms(1) by (simp only: inv_tags_def)
    then have "i < emitted s" by simp
    then show "i = 0" using e by simp
  }
qed

lemma consumed_tags:
  assumes "p \<in> set (consumed s)"
  shows "fst (fst p) \<in># device_tokens s" and "fst (snd p) \<in># cpu_tokens s"
  using assms by (simp_all add: device_tokens_def cpu_tokens_def)

lemma count_upt: "count (mset [0..<k]) i \<le> 1"
  by (simp add: count_mset_set')

lemma tags_once:
  assumes "inv_tags s"
  shows "i \<in># device_tokens s \<Longrightarrow> i \<notin># device_pending s"
    and "i \<in># cpu_tokens s \<Longrightarrow> i \<notin># cpu_pending s"
proof -
  have "count (device_pending s + device_tokens s) i = count (mset [0..<emitted s]) i"
    using assms by (simp only: inv_tags_def)
  then have d: "count (device_pending s) i + count (device_tokens s) i \<le> 1"
    using count_upt[of "emitted s" i] by simp
  have "count (cpu_pending s + cpu_tokens s) i = count (mset [0..<emitted s]) i"
    using assms by (simp only: inv_tags_def)
  then have c: "count (cpu_pending s) i + count (cpu_tokens s) i \<le> 1"
    using count_upt[of "emitted s" i] by simp
  {
    assume "i \<in># device_tokens s"
    then have "0 < count (device_tokens s) i" by (simp only: count_greater_zero_iff)
    then have "count (device_pending s) i = 0" using d by linarith
    then show "i \<notin># device_pending s" by (simp only: not_in_iff)
  }
  {
    assume "i \<in># cpu_tokens s"
    then have "0 < count (cpu_tokens s) i" by (simp only: count_greater_zero_iff)
    then have "count (cpu_pending s) i = 0" using c by linarith
    then show "i \<notin># cpu_pending s" by (simp only: not_in_iff)
  }
qed

lemma size_tokens:
  "size (device_tokens s) = length (port0 s) + length (out_node_tasks s) + length (consumed s)"
  "size (cpu_tokens s) = length (port1 s) + length (out_node_tasks s) + length (consumed s)"
  by (simp_all add: device_tokens_def cpu_tokens_def)

lemma returned_state:
  assumes "invariant s" and "main_thread s = Returned"
  shows "emitted s = 1" and "consumed s = [((0, sycl_result), (0, tbb_result))]"
    and "try_put_calls s = 1" and "release_calls s = 1"
    and "arena_queue s = []" and "arena_running s = None" and "reserved s = 0"
proof -
  from assms(1) have c: "inv_counters s" and t: "inv_tags s" and so: "inv_source s"
    and v: "inv_values s" and r: "inv_returned s"
    by (simp_all add: invariant_def)
  from r assms(2) have i: "idle s" and z: "reserved s = 0" by (simp_all add: inv_returned_def)
  from c z have q: "arena_queue s = []" "arena_running s = None" "a_node_reserved s = []"
    by (simp_all add: counter_defs split: option.splits)
  show "arena_queue s = []" "arena_running s = None" "reserved s = 0" using q z by simp_all
  from so i assms(2) show e: "emitted s = 1" by (simp add: inv_source_def idle_def)
  have dp: "device_pending s = {#}" and cp: "cpu_pending s = {#}"
    using i q by (simp_all add: device_pending_def cpu_pending_def idle_def)
  from t have "size (device_pending s + device_tokens s) = size (mset [0..<emitted s])"
    and "size (cpu_pending s + cpu_tokens s) = size (mset [0..<emitted s])"
    by (simp_all only: inv_tags_def)
  then have sz: "length (port0 s) + length (consumed s) = 1"
    "length (port1 s) + length (consumed s) = 1"
    using i by (simp_all add: dp cp e size_tokens idle_def)
  have "port0 s = [] \<or> port1 s = []" using i by (simp add: idle_def)
  then have len: "length (consumed s) = 1" and p: "port0 s = []" "port1 s = []"
    using sz by auto
  from len obtain p where cons: "consumed s = [p]"
    by (cases "consumed s") simp_all
  have "fst (fst p) = 0" and "fst (snd p) = 0"
    using tags_bounded[OF t so] consumed_tags[of p s] by (simp_all add: cons)
  moreover have "snd (fst p) = sycl_result" and "snd (snd p) = tbb_result"
    using v by (simp_all add: inv_values_def cons)
  ultimately have "p = ((0, sycl_result), (0, tbb_result))" by (simp add: prod_eq_iff)
  then show "consumed s = [((0, sycl_result), (0, tbb_result))]" by (simp add: cons)
  from c i p len show tp: "try_put_calls s = 1" by (simp add: inv_counters_def idle_def)
  from c q tp show "release_calls s = 1" by (simp add: counter_defs)
qed

lemma run_snoc: "run (as @ [a]) s = (case run as s of None \<Rightarrow> None | Some t \<Rightarrow> exec a t)"
  by (induction as arbitrary: s) (simp_all split: option.splits)

lemma wait_return_late:
  assumes "run as (initial v0) = Some s" and "exec Wait_return s \<noteq> None"
  shows "try_put_calls s = 1" and "release_calls s = 1"
proof -
  from assms(2) obtain s' where e: "exec Wait_return s = Some s'" by blast
  have "run (as @ [Wait_return]) (initial v0) = Some s'"
    by (simp only: run_snoc assms(1) option.case e)
  then have inv: "invariant s'" by (rule reachable_invariant)
  have s': "s' = s\<lparr>main_thread := Returned\<rparr>" using e by (rule exec_Wait_returnE)
  then have r: "main_thread s' = Returned" by simp
  show "try_put_calls s = 1" using returned_state(3)[OF inv r] by (simp add: s')
  show "release_calls s = 1" using returned_state(4)[OF inv r] by (simp add: s')
qed

text \<open>
  Claim C3. In every state a run can reach: once \<^verbatim>\<open>g.wait_for_all()\<close> has returned, the
  count of outstanding work is zero, no function is left in the arena, and the
  completion token has been put and the reservation released; \<^verbatim>\<open>g.wait_for_all()\<close> cannot
  return while the count is not zero, nor at any earlier moment of the run: it can return
  only when the token has been put and the reservation released. The count is the number
  of \<^verbatim>\<open>reserve_wait\<close> calls less the number of \<^verbatim>\<open>release_wait\<close> calls. Every \<^verbatim>\<open>enqueue\<close>
  comes after its \<^verbatim>\<open>reserve_wait\<close>, so every function that is queued or running in the
  arena is covered by the count; and every \<^verbatim>\<open>release_wait\<close> comes after its \<^verbatim>\<open>try_put\<close>.
\<close>

theorem outstanding_work:
  assumes "run as (initial v0) = Some s"
  shows "(main_thread s = Returned \<longrightarrow>
            reserved s = 0 \<and> arena_queue s = [] \<and> arena_running s = None
            \<and> try_put_calls s = 1 \<and> release_calls s = 1)
         \<and> (0 < reserved s \<longrightarrow> exec Wait_return s = None)
         \<and> (exec Wait_return s \<noteq> None \<longrightarrow> try_put_calls s = 1 \<and> release_calls s = 1)
         \<and> reserved s = reserve_calls s - release_calls s
         \<and> enqueue_calls s \<le> reserve_calls s
         \<and> pending_lambdas s \<le> reserved s
         \<and> release_calls s \<le> try_put_calls s"
proof -
  have inv: "invariant s" using assms by (rule reachable_invariant)
  then have c: "inv_counters s" by (simp add: invariant_def)
  have "main_thread s = Returned \<longrightarrow>
      reserved s = 0 \<and> arena_queue s = [] \<and> arena_running s = None
      \<and> try_put_calls s = 1 \<and> release_calls s = 1"
    using returned_state[OF inv] by blast
  moreover have "0 < reserved s \<longrightarrow> exec Wait_return s = None" by simp
  moreover have "exec Wait_return s \<noteq> None \<longrightarrow> try_put_calls s = 1 \<and> release_calls s = 1"
    using wait_return_late[OF assms] by blast
  moreover have "reserved s = reserve_calls s - release_calls s"
    and "enqueue_calls s \<le> reserve_calls s"
    and "pending_lambdas s \<le> reserved s"
    and "release_calls s \<le> try_put_calls s"
    using c by (simp_all add: inv_counters_def)
  ultimately show ?thesis by blast
qed

text \<open>The theorem for the complete run \<open>full_run\<close>.\<close>

theorem outstanding_work_witness:
  "run full_run (initial (Fin 0)) = Some final_state
   \<and> main_thread final_state = Returned
   \<and> reserved final_state = 0 \<and> arena_queue final_state = []
   \<and> arena_running final_state = None
   \<and> try_put_calls final_state = 1 \<and> release_calls final_state = 1"
proof -
  have r: "main_thread final_state = Returned" by (simp add: final_state_def)
  from outstanding_work[OF run_full_run] r run_full_run show ?thesis by blast
qed

subsection \<open>A source that emits more than once\<close>

lemma in_node_times_1: "in_node_times (Suc 0) cnt = in_node"
  by (simp add: in_node_times_def in_node_def fun_eq_iff)

lemma exec_times_1: "exec_times (Suc 0) a s = exec a s"
  by (cases a) (simp_all add: in_node_times_1)

lemma run_times_1: "run_times (Suc 0) as s = run as s"
  by (induction as arbitrary: s) (simp_all add: exec_times_1 split: option.splits)

lemma exec_times_other: "a \<noteq> Source_body \<Longrightarrow> exec_times K a s = exec a s"
  by (cases a) simp_all

lemma exec_times_Source_bodyE:
  assumes "exec_times K Source_body s = Some s'"
  shows "source_active s"
    and "flag_n s \<Longrightarrow> s' = s\<lparr>flag_n := True, source_active := False\<rparr>"
    and "\<not> flag_n s \<Longrightarrow>
           s' = s\<lparr>flag_n := K \<le> Suc (emitted s), cached_item := ratio,
                   emitted := Suc (emitted s),
                   a_node_tasks := a_node_tasks s @ [(emitted s, ratio)],
                   cpu_node_tasks := cpu_node_tasks s @ [(emitted s, ratio)]\<rparr>"
  using assms by (simp_all add: in_node_times_def successors_simps split: if_splits)

lemma exec_times_cases [consumes 1, case_names Emit Stop Other]:
  assumes "exec_times K a s = Some s'"
  obtains
    "a = Source_body" and "source_active s" and "\<not> flag_n s"
      and "s' = s\<lparr>flag_n := K \<le> Suc (emitted s), cached_item := ratio,
                   emitted := Suc (emitted s),
                   a_node_tasks := a_node_tasks s @ [(emitted s, ratio)],
                   cpu_node_tasks := cpu_node_tasks s @ [(emitted s, ratio)]\<rparr>"
  | "a = Source_body" and "source_active s" and "flag_n s"
      and "s' = s\<lparr>flag_n := True, source_active := False\<rparr>"
  | "a \<noteq> Source_body" and "exec a s = Some s'"
proof (cases "a = Source_body")
  case True
  with assms have e: "exec_times K Source_body s = Some s'" by simp
  show ?thesis using that(1,2) True exec_times_Source_bodyE[OF e] by blast
next
  case False
  then show ?thesis using that(3) assms by (simp add: exec_times_other)
qed

lemma exec_times_counters:
  assumes "inv_counters s" and "exec_times K a s = Some s'"
  shows "inv_counters s'"
  using assms(2)
proof (cases rule: exec_times_cases)
  case Other
  with assms(1) show ?thesis by (simp add: exec_counters)
qed (use assms(1) in \<open>simp_all add: counter_defs\<close>)

lemma exec_times_tags:
  assumes "inv_tags s" and "exec_times K a s = Some s'"
  shows "inv_tags s'"
  using assms(2)
proof (cases rule: exec_times_cases)
  case Other
  with assms(1) show ?thesis by (simp add: exec_tags)
qed (use assms(1) in \<open>simp_all add: tag_defs\<close>)

lemma exec_times_values:
  assumes "inv_values s" and "exec_times K a s = Some s'"
  shows "inv_values s'"
  using assms(2)
proof (cases rule: exec_times_cases)
  case Other
  with assms(1) show ?thesis by (simp add: exec_values)
qed (use assms(1) in \<open>simp_all add: inv_values_def\<close>)

lemma exec_times_returned:
  assumes "inv_counters s" and "inv_returned s" and "exec_times K a s = Some s'"
  shows "inv_returned s'"
  using assms(3)
proof (cases rule: exec_times_cases)
  case Other
  with assms(1,2) show ?thesis by (simp add: exec_returned)
qed (use assms(2) in \<open>simp_all add: inv_returned_def idle_def\<close>)

lemma exec_times_source:
  assumes "0 < K" and "inv_source_times K s" and "exec_times K a s = Some s'"
  shows "inv_source_times K s'"
  using assms(3)
proof (cases rule: exec_times_cases)
  case Other
  from Other(2) show ?thesis
    by (cases rule: exec_cases) (use Other(1) assms(1,2) in \<open>auto simp add: inv_source_times_def\<close>)
qed (use assms(1,2) in \<open>auto simp add: inv_source_times_def\<close>)

lemma run_times_invariant:
  assumes "0 < K" and "invariant_times K s" and "run_times K as s = Some s'"
  shows "invariant_times K s'"
  using assms(2,3)
proof (induction as arbitrary: s)
  case Nil
  then show ?case by simp
next
  case (Cons a as)
  from Cons.prems(2) obtain t where t: "exec_times K a s = Some t"
    and r: "run_times K as t = Some s'"
    by (auto split: option.splits)
  from Cons.prems(1) have i: "inv_counters s" "inv_tags s" "inv_source_times K s" "inv_values s"
    "inv_returned s"
    by (simp_all add: invariant_times_def)
  have "invariant_times K t"
    unfolding invariant_times_def
    using exec_times_counters[OF i(1) t] exec_times_tags[OF i(2) t]
      exec_times_source[OF assms(1) i(3) t] exec_times_values[OF i(4) t]
      exec_times_returned[OF i(1) i(5) t]
    by simp
  then show ?case using r by (rule Cons.IH)
qed

lemma reachable_invariant_times:
  assumes "0 < K" and "run_times K as (initial v0) = Some s"
  shows "invariant_times K s"
proof -
  have "inv_source_times K (initial v0)"
    using assms(1) by (simp add: inv_source_times_def initial_def)
  then have "invariant_times K (initial v0)" by (simp add: invariant_times_def inv_initial)
  then show ?thesis using assms by (intro run_times_invariant[of K "initial v0" as s])
qed

lemma drained_empty:
  assumes "inv_tags s" and "length (consumed s) = emitted s"
  shows "in_flight s = {#}" and "out_node_tasks s = []"
proof -
  from assms(1) have "size (device_pending s + device_tokens s) = size (mset [0..<emitted s])"
    and "size (cpu_pending s + cpu_tokens s) = size (mset [0..<emitted s])"
    by (simp_all only: inv_tags_def)
  then have d: "size (device_pending s) + length (port0 s) + length (out_node_tasks s) = 0"
    and c: "size (cpu_pending s) + length (port1 s) + length (out_node_tasks s) = 0"
    using assms(2) by (simp_all add: size_tokens)
  from d show "out_node_tasks s = []" by simp
  from d c show "in_flight s = {#}" by (simp add: in_flight_def)
qed

lemmas flight_defs = in_flight_def device_pending_def cpu_pending_def

lemma exec_in_flight:
  assumes "exec a s = Some s'" and "a \<noteq> Source_body" and "a \<noteq> Join_forward"
  shows "in_flight s' = in_flight s"
  using assms(1)
proof (cases rule: exec_cases)
  case (A_reserve k)
  then show ?thesis using mset_remove_nth[of k "a_node_tasks s" fst]
    by (simp add: flight_defs)
next
  case (A_enqueue k)
  then show ?thesis using mset_remove_nth[of k "a_node_reserved s" fst]
    by (simp add: flight_defs)
next
  case (Cpu_body k)
  then show ?thesis using mset_remove_nth[of k "cpu_node_tasks s" fst]
    by (simp add: flight_defs)
qed (use assms(2,3) in \<open>simp_all add: flight_defs\<close>)

lemma exec_times_sequential:
  assumes "inv_tags s" and "inv_sequential s" and "exec_times K a s = Some s'"
    and "a = Source_body \<and> \<not> flag_n s \<longrightarrow> length (consumed s) = emitted s"
  shows "inv_sequential s'"
  using assms(3)
proof (cases rule: exec_times_cases)
  case Emit
  then have dr: "length (consumed s) = emitted s" using assms(4) by simp
  have e: "in_flight s = {#}" and o: "out_node_tasks s = []"
    using drained_empty[OF assms(1) dr] by simp_all
  have "in_flight s' = add_mset (emitted s) (add_mset (emitted s) (in_flight s))"
    by (simp add: Emit(4) flight_defs)
  then have "in_flight s' = {#emitted s, emitted s#}" by (simp add: e)
  then show ?thesis using assms(2) by (simp add: inv_sequential_def Emit(4))
next
  case Stop
  have "in_flight s' = in_flight s" by (simp add: Stop(4) flight_defs)
  then show ?thesis using assms(2) by (simp add: inv_sequential_def Stop(4))
next
  case Other
  show ?thesis
  proof (cases "a = Join_forward")
    case True
    with Other(2) have "exec Join_forward s = Some s'" by simp
    then obtain t0 p0 t1 p1 where p: "port0 s = t0 # p0" "port1 s = t1 # p1"
      and s': "s' = s\<lparr>port0 := p0, port1 := p1, out_node_tasks := out_node_tasks s @ [(t0, t1)]\<rparr>"
      by (rule exec_Join_forwardE)
    have f: "in_flight s = add_mset (fst t0) (add_mset (fst t1) (in_flight s'))"
      by (simp add: s' p flight_defs)
    have all: "\<forall>i \<in># in_flight s. Suc i = emitted s"
      using assms(2) by (simp add: inv_sequential_def)
    then have "Suc (fst t0) = emitted s" and "Suc (fst t1) = emitted s"
      by (simp_all add: f)
    then have "same_activation (t0, t1)" by (simp add: same_activation_def)
    moreover have "\<forall>i \<in># in_flight s'. Suc i = emitted s" using all by (simp add: f)
    ultimately show ?thesis using assms(2) by (simp add: inv_sequential_def s')
  next
    case False
    have fl: "in_flight s' = in_flight s"
      using Other(2,1) False by (rule exec_in_flight)
    from Other(2) show ?thesis
    proof (cases rule: exec_cases)
      case (Out_body k)
      then show ?thesis
        using assms(2) fl list_all_remove_nth[of same_activation "out_node_tasks s" k]
          list_all_nth[of same_activation "out_node_tasks s" k]
        by (simp add: inv_sequential_def)
    qed (use assms(2) fl False Other(1) in \<open>simp_all add: inv_sequential_def\<close>)
  qed
qed

lemma run_times_sequential:
  assumes "inv_tags s" and "inv_sequential s" and "sequential K as s"
    and "run_times K as s = Some s'"
  shows "inv_sequential s'"
  using assms
proof (induction as arbitrary: s)
  case Nil
  then show ?case by simp
next
  case (Cons a as)
  from Cons.prems(4) obtain t where t: "exec_times K a s = Some t"
    and r: "run_times K as t = Some s'"
    by (auto split: option.splits)
  from Cons.prems(3) t have c: "a = Source_body \<and> \<not> flag_n s \<longrightarrow> length (consumed s) = emitted s"
    and q: "sequential K as t"
    by simp_all
  have "inv_tags t" using Cons.prems(1) t by (rule exec_times_tags)
  moreover have "inv_sequential t" using Cons.prems(1,2) t c by (rule exec_times_sequential)
  ultimately show ?case using q r by (rule Cons.IH)
qed

lemma inv_sequential_initial: "inv_sequential (initial v0)"
  by (simp add: inv_sequential_def flight_defs initial_def)

lemma run_times_append:
  "run_times K (as @ bs) s =
     (case run_times K as s of None \<Rightarrow> None | Some t \<Rightarrow> run_times K bs t)"
  by (induction as arbitrary: s) (simp_all split: option.splits)

lemma run_crossed: "run_times 2 crossed_run (initial (Fin 0)) = Some crossed_state"
  by (simp add: crossed_run_def crossed_state_def initial_def in_node_times_def successors_simps
      remove_nth_def)

lemma run_crossed_rest: "run_times 2 crossed_rest crossed_state = Some crossed_final"
  by (simp add: crossed_rest_def crossed_state_def crossed_final_def in_node_times_def
      successors_simps remove_nth_def idle_def)

lemma run_sequential:
  "run_times 2 sequential_run (initial (Fin 0)) = Some sequential_final"
  by (simp add: sequential_run_def sequential_final_def initial_def in_node_times_def
      successors_simps remove_nth_def idle_def)

lemma sequential_sequential_run: "sequential 2 sequential_run (initial (Fin 0))"
  by (simp add: sequential_run_def initial_def in_node_times_def
      successors_simps remove_nth_def idle_def)

lemma not_sequential_crossed: "\<not> sequential 2 crossed_run (initial (Fin 0))"
  by (simp add: crossed_run_def initial_def in_node_times_def
      successors_simps remove_nth_def idle_def)

lemma distinct_count_le_1:
  assumes "\<And>a. count (mset xs) a \<le> 1"
  shows "distinct xs"
  unfolding distinct_count_atmost_1
proof
  fix a
  show "count (mset xs) a = (if a \<in> set xs then 1 else 0)"
  proof (cases "a \<in> set xs")
    case True
    then have "a \<in># mset xs" by simp
    then have "0 < count (mset xs) a" by (simp only: count_greater_zero_iff)
    then have "count (mset xs) a = 1" using assms[of a] by linarith
    then show ?thesis using True by simp
  next
    case False
    then have "a \<notin># mset xs" by simp
    then have "count (mset xs) a = 0" by (simp only: not_in_iff)
    then show ?thesis using False by simp
  qed
qed

lemma token_count:
  assumes "inv_tags s"
  shows "count (device_tokens s) a \<le> 1" and "count (cpu_tokens s) a \<le> 1"
proof -
  have "count (device_pending s + device_tokens s) a = count (mset [0..<emitted s]) a"
    using assms by (simp only: inv_tags_def)
  then show "count (device_tokens s) a \<le> 1" using count_upt[of "emitted s" a] by simp
  have "count (cpu_pending s + cpu_tokens s) a = count (mset [0..<emitted s]) a"
    using assms by (simp only: inv_tags_def)
  then show "count (cpu_tokens s) a \<le> 1" using count_upt[of "emitted s" a] by simp
qed

lemma consumed_distinct:
  assumes "inv_tags s"
  shows "distinct (map (fst \<circ> fst) (consumed s))" and "distinct (map (fst \<circ> snd) (consumed s))"
proof -
  have "count (mset (map (fst \<circ> fst) (consumed s))) a \<le> 1" for a
  proof -
    have "count (mset (map (fst \<circ> fst) (consumed s))) a \<le> count (device_tokens s) a"
      by (simp add: device_tokens_def)
    then show ?thesis using token_count(1)[OF assms, of a] by linarith
  qed
  then show "distinct (map (fst \<circ> fst) (consumed s))" by (rule distinct_count_le_1)
  have "count (mset (map (fst \<circ> snd) (consumed s))) a \<le> 1" for a
  proof -
    have "count (mset (map (fst \<circ> snd) (consumed s))) a \<le> count (cpu_tokens s) a"
      by (simp add: cpu_tokens_def)
    then show ?thesis using token_count(2)[OF assms, of a] by linarith
  qed
  then show "distinct (map (fst \<circ> snd) (consumed s))" by (rule distinct_count_le_1)
qed

lemma returned_times:
  assumes "invariant_times K s" and "main_thread s = Returned"
  shows "length (consumed s) = K"
    and "mset (map (fst \<circ> fst) (consumed s)) = mset [0..<K]"
    and "mset (map (fst \<circ> snd) (consumed s)) = mset [0..<K]"
proof -
  from assms(1) have c: "inv_counters s" and t: "inv_tags s" and so: "inv_source_times K s"
    and r: "inv_returned s"
    by (simp_all add: invariant_times_def)
  from r assms(2) have i: "idle s" and z: "reserved s = 0" by (simp_all add: inv_returned_def)
  from c z have q: "arena_queue s = []" "arena_running s = None" "a_node_reserved s = []"
    by (simp_all add: counter_defs split: option.splits)
  from so i assms(2) have e: "emitted s = K" by (auto simp add: inv_source_times_def idle_def)
  have dp: "device_pending s = {#}" and cp: "cpu_pending s = {#}"
    using i q by (simp_all add: device_pending_def cpu_pending_def idle_def)
  from t have dt: "device_tokens s = mset [0..<K]" and ct: "cpu_tokens s = mset [0..<K]"
    by (simp_all add: inv_tags_def dp cp e)
  from dt ct have "size (device_tokens s) = K" and "size (cpu_tokens s) = K" by simp_all
  then have sz: "length (port0 s) + length (consumed s) = K"
    "length (port1 s) + length (consumed s) = K"
    using i by (simp_all add: size_tokens idle_def)
  have "port0 s = [] \<or> port1 s = []" using i by (simp add: idle_def)
  then have p: "port0 s = []" "port1 s = []" and len: "length (consumed s) = K"
    using sz by auto
  show "length (consumed s) = K" by (rule len)
  have o: "out_node_tasks s = []" using i by (simp add: idle_def)
  show "mset (map (fst \<circ> fst) (consumed s)) = mset [0..<K]"
    using dt by (simp add: device_tokens_def p o)
  show "mset (map (fst \<circ> snd) (consumed s)) = mset [0..<K]"
    using ct by (simp add: cpu_tokens_def p o)
qed

text \<open>
  Claim C4, as amended. Let the source emit \<open>K\<close> values. In every state a run can reach,
  \<^verbatim>\<open>out_node\<close> has been invoked at most once per value emitted, and exactly \<open>K\<close> times once
  \<^verbatim>\<open>g.wait_for_all()\<close> has returned; every tuple it has been invoked with consists of one
  token of the device path and one of the CPU path, both produced before: the work that
  yields them is no longer pending; and the device token and the CPU token of every
  activation are each consumed once. In a run where no value is emitted before \<^verbatim>\<open>out_node\<close>
  has been invoked for all earlier ones, the two tokens of every tuple belong to the same
  activation. The program itself has \<open>K = 1\<close>: in each of its runs the tuple consumed is
  the pair of the two results of the one activation.
\<close>

theorem join_pairing:
  assumes "0 < K" and "run_times K as (initial v0) = Some s"
  shows "length (consumed s) \<le> emitted s \<and> emitted s \<le> K
         \<and> (main_thread s = Returned \<longrightarrow>
              length (consumed s) = K
              \<and> mset (map (fst \<circ> fst) (consumed s)) = mset [0..<K]
              \<and> mset (map (fst \<circ> snd) (consumed s)) = mset [0..<K])
         \<and> list_all (\<lambda>p. snd (fst p) = sycl_result \<and> snd (snd p) = tbb_result) (consumed s)
         \<and> distinct (map (fst \<circ> fst) (consumed s)) \<and> distinct (map (fst \<circ> snd) (consumed s))
         \<and> list_all (\<lambda>p. fst (fst p) \<notin># device_pending s \<and> fst (snd p) \<notin># cpu_pending s)
             (consumed s)
         \<and> (sequential K as (initial v0) \<longrightarrow> list_all same_activation (consumed s))
         \<and> (K = 1 \<longrightarrow>
              run as (initial v0) = Some s \<and> list_all same_activation (consumed s)
              \<and> (main_thread s = Returned \<longrightarrow>
                   consumed s = [((0, sycl_result), (0, tbb_result))]))"
proof -
  have inv: "invariant_times K s" using assms by (rule reachable_invariant_times)
  then have t: "inv_tags s" and so: "inv_source_times K s" and v: "inv_values s"
    by (simp_all add: invariant_times_def)
  from t have "size (device_pending s + device_tokens s) = size (mset [0..<emitted s])"
    by (simp only: inv_tags_def)
  then have "length (consumed s) \<le> emitted s" by (simp add: size_tokens)
  moreover have "emitted s \<le> K" using so by (simp add: inv_source_times_def)
  moreover have "main_thread s = Returned \<longrightarrow>
      length (consumed s) = K
      \<and> mset (map (fst \<circ> fst) (consumed s)) = mset [0..<K]
      \<and> mset (map (fst \<circ> snd) (consumed s)) = mset [0..<K]"
    using returned_times[OF inv] by blast
  moreover have "list_all (\<lambda>p. snd (fst p) = sycl_result \<and> snd (snd p) = tbb_result) (consumed s)"
    using v by (simp add: inv_values_def)
  moreover have "distinct (map (fst \<circ> fst) (consumed s))"
    and "distinct (map (fst \<circ> snd) (consumed s))"
    using t by (rule consumed_distinct)+
  moreover have "list_all (\<lambda>p. fst (fst p) \<notin># device_pending s \<and> fst (snd p) \<notin># cpu_pending s)
      (consumed s)"
  proof -
    have "fst (fst p) \<notin># device_pending s \<and> fst (snd p) \<notin># cpu_pending s"
      if "p \<in> set (consumed s)" for p
      using tags_once[OF t] consumed_tags[OF that] by simp
    then show ?thesis by (simp add: list_all_iff)
  qed
  moreover have "list_all same_activation (consumed s)" if "sequential K as (initial v0)"
  proof -
    have "inv_sequential s"
      using inv_initial(2) inv_sequential_initial that assms(2) by (rule run_times_sequential)
    then show ?thesis by (simp add: inv_sequential_def)
  qed
  moreover have "run as (initial v0) = Some s \<and> list_all same_activation (consumed s)
      \<and> (main_thread s = Returned \<longrightarrow> consumed s = [((0, sycl_result), (0, tbb_result))])"
    if "K = 1"
  proof -
    have r: "run as (initial v0) = Some s" using assms(2) that by (simp add: run_times_1)
    then have i: "invariant s" by (rule reachable_invariant)
    then have t': "inv_tags s" and so': "inv_source s" by (simp_all add: invariant_def)
    have "same_activation p" if "p \<in> set (consumed s)" for p
    proof -
      have "fst (fst p) = 0"
        using tags_bounded(1)[OF t' so', of "fst (fst p)"] consumed_tags(1)[OF that] by simp
      moreover have "fst (snd p) = 0"
        using tags_bounded(2)[OF t' so', of "fst (snd p)"] consumed_tags(2)[OF that] by simp
      ultimately show ?thesis by (simp add: same_activation_def)
    qed
    then have "list_all same_activation (consumed s)" by (simp add: list_all_iff)
    then show ?thesis using r returned_state(2)[OF i] by blast
  qed
  ultimately show ?thesis by blast
qed

text \<open>The theorem for \<open>sequential_run\<close>, a complete run of two activations.\<close>

theorem join_pairing_witness:
  "(0::nat) < 2
   \<and> run_times 2 sequential_run (initial (Fin 0)) = Some sequential_final
   \<and> sequential 2 sequential_run (initial (Fin 0))
   \<and> main_thread sequential_final = Returned
   \<and> length (consumed sequential_final) = 2
   \<and> list_all same_activation (consumed sequential_final)
   \<and> consumed sequential_final
       = [((0, sycl_result), (0, tbb_result)), ((1, sycl_result), (1, tbb_result))]"
proof -
  have k: "(0::nat) < 2" by simp
  have r: "main_thread sequential_final = Returned"
    and c: "consumed sequential_final
       = [((0, sycl_result), (0, tbb_result)), ((1, sycl_result), (1, tbb_result))]"
    by (simp_all add: sequential_final_def)
  from join_pairing[OF k run_sequential] k r c run_sequential sequential_sequential_run
  show ?thesis by blast
qed

text \<open>
  Claim C4 as stated fails for \<open>K = 2\<close>. The activations of this graph are the values its
  source emits, one after the other; nothing makes the source wait until an earlier value
  has been consumed, \<^verbatim>\<open>a_node\<close> and \<^verbatim>\<open>cpu_node\<close> run their tasks in any order, and the
  queueing join pairs tokens in their order of arrival. In \<open>crossed_run\<close> the source emits
  both values, and \<^verbatim>\<open>out_node\<close> is invoked with the device token of activation \<open>0\<close> and the
  CPU token of activation \<open>1\<close> while the CPU work of activation \<open>0\<close> is still pending; the
  completed run has consumed two mismatched tuples.
\<close>

theorem join_crossed_counterexample:
  "run_times 2 crossed_run (initial (Fin 0)) = Some crossed_state
   \<and> consumed crossed_state = [((0, sycl_result), (1, tbb_result))]
   \<and> \<not> same_activation ((0, sycl_result), (1, tbb_result))
   \<and> cpu_node_tasks crossed_state = [(0, ratio)]
   \<and> 0 \<in># cpu_pending crossed_state
   \<and> run_times 2 (crossed_run @ crossed_rest) (initial (Fin 0)) = Some crossed_final
   \<and> main_thread crossed_final = Returned
   \<and> consumed crossed_final
       = [((0, sycl_result), (1, tbb_result)), ((1, sycl_result), (0, tbb_result))]"
  by (simp add: run_times_append run_crossed run_crossed_rest)
    (simp add: crossed_state_def crossed_final_def same_activation_def cpu_pending_def)

section \<open>The error handler\<close>

text \<open>
  A run in which index 1 is never written ends with \<^verbatim>\<open>out_node\<close> reporting an error.
\<close>

lemma unwritten_verdict:
  assumes "1 \<notin> snd ` set es"
  shows "out_node array_size (run_schedule es (init_arrays array_size))
           = ''Heterogenous triad error.''"
proof -
  let ?st = "run_schedule es (init_arrays array_size)"
  have len: "1 < length (c_array (init_arrays array_size))"
    by (simp add: length_init_arrays array_size_def)
  have "c_array ?st ! 1 = c_array (init_arrays array_size) ! 1"
    using fold_exec_nth[OF len, of es] assms by (simp add: run_schedule_def)
  then have c: "c_array ?st ! 1 = Fin 0" by (simp add: init_arrays_eq array_size_def)
  have "c_gold array_size (init_arrays array_size)
      = map (\<lambda>i. Fin (of_nat i + 1 / 2 * of_nat i)) [0..<array_size]"
    by (rule gold_values) (simp add: array_size_def)
  then have g: "c_gold array_size ?st ! 1 = Fin (3 / 2)" by (simp add: gold_run array_size_def)
  have "\<not> list_all2 feq (c_array ?st) (c_gold array_size ?st)"
  proof
    assume a: "list_all2 feq (c_array ?st) (c_gold array_size ?st)"
    have "1 < length (c_array ?st)"
      using len by (simp add: run_schedule_def fold_exec_length)
    with a have "feq (c_array ?st ! 1) (c_gold array_size ?st ! 1)" by (rule list_all2_nthD)
    then have "c_array ?st ! 1 = c_gold array_size ?st ! 1" unfolding feq_def by blast
    then have "Fin 0 = Fin (3 / 2)" unfolding c g .
    then show False by simp
  qed
  then show ?thesis by (simp add: out_node_def)
qed

text \<open>
  Claim C7 says that an error of the device ends the process at once and that the
  consumer never runs on a partial result. The program does not do that: its queue has no
  handler, so for an asynchronous error \<^verbatim>\<open>wait_and_throw\<close> returns, and the function goes
  on to \<^verbatim>\<open>gateway.try_put\<close> and \<^verbatim>\<open>gateway.release_wait\<close>; with \<^verbatim>\<open>exception_handler\<close>
  installed the same error would have ended the process. When the device has written
  nothing and the CPU its half, \<^verbatim>\<open>out_node\<close> runs and reports an error.
\<close>

theorem handler_not_installed:
  "async_handler queue_q = None
   \<and> wait_and_throw queue_q [Sycl_exception] = Continue
   \<and> after_kernel [Sycl_exception] = (Continue, [Try_put sycl_result, Release_wait])
   \<and> wait_and_throw \<lparr>async_handler = Some exception_handler\<rparr> [Sycl_exception] = Terminate
   \<and> out_node array_size (run_schedule (map (Pair Cpu) [8..<16]) (init_arrays array_size))
       = ''Heterogenous triad error.''"
proof -
  have "1 \<notin> snd ` set (map (Pair Cpu) [8..<16])" by auto
  then have "out_node array_size (run_schedule (map (Pair Cpu) [8..<16]) (init_arrays array_size))
      = ''Heterogenous triad error.''"
    by (rule unwritten_verdict)
  then show ?thesis by (simp add: queue_q_def wait_and_throw_def after_kernel_def)
qed

end
